theory Spec2Isabelle
  imports Main
begin

section \<open>The data the persistence layer handles\<close>

text \<open>
  The module under study is \<^verbatim>\<open>src/services/sql.js\<close>. JavaScript values are kept as a
  small datatype; a row, and the record handed to \<^verbatim>\<open>insert\<close>, is an object, modelled as
  the list of its properties in enumeration order (so that \<^verbatim>\<open>Object.keys\<close> and
  \<^verbatim>\<open>Object.values\<close> are the two projections of the list).
\<close>

datatype val = Undefined | Null | Boolean bool | Number int | Text string
  | Object "(string \<times> val) list"

type_synonym row = "(string \<times> val) list"

text \<open>An \<^verbatim>\<open>Error\<close> object: the two properties the module reads and writes.\<close>

record error =
  message :: string
  stack :: string

text \<open>
  Every function of the module is \<^verbatim>\<open>async\<close>: it returns a promise. A call is modelled by
  the state its promise ends in: fulfilled with a value, rejected with an error, or never
  settled.
\<close>

datatype 'a outcome = Resolved 'a | Rejected error | Unsettled

text \<open>The object \<^verbatim>\<open>db.run\<close> resolves to; the module reads only \<^verbatim>\<open>lastID\<close>.\<close>

record run_result =
  lastID :: val

text \<open>
  The database handle (\<^verbatim>\<open>dbConnection\<close>) is an external collaborator. Its four primitives
  are taken as parameters: each answers a statement, given the calls the handle has received
  before, with a result or with an error. \<open>calls\<close> in the state below records every call
  handed to the handle, in order.
\<close>

datatype call =
    DbRun string "val list"
  | DbGet string "val list"
  | DbAll string "val list"
  | DbExec string

record driver =
  db_run :: "call list \<Rightarrow> string \<Rightarrow> val list \<Rightarrow> error + run_result"
  db_get :: "call list \<Rightarrow> string \<Rightarrow> val list \<Rightarrow> error + val"
  db_all :: "call list \<Rightarrow> string \<Rightarrow> val list \<Rightarrow> error + row list"
  db_exec :: "call list \<Rightarrow> string \<Rightarrow> error + unit"

text \<open>
  Modelled from the spec: the \<^verbatim>\<open>log\<close> module (\<^verbatim>\<open>./log\<close>) is not among the sources; the spec
  says that failures are "recorded to a diagnostic log" at error level. The log is the list
  of entries written so far, each with its level.
\<close>

datatype level = LevelInfo | LevelError

text \<open>
  Modelled from the spec: the \<^verbatim>\<open>cls\<close> module (\<^verbatim>\<open>./cls\<close>) is not among the sources; the spec
  gives every call chain a boolean flag of its own, false at first, that follows the chain
  across suspension points and is invisible to other chains. \<open>isInTransaction\<close> below is
  the flag of the chain that is running.

  The state one call chain sees: the module's variables \<^verbatim>\<open>dbConnection\<close>,
  \<^verbatim>\<open>transactionActive\<close> and \<^verbatim>\<open>transactionPromise\<close> (\<open>None\<close> is \<^verbatim>\<open>null\<close>, otherwise the
  state of the promise object the variable holds), the chain's flag, the log, the calls
  received by the handle, and the text \<^verbatim>\<open>new Error()\<close> captures: the \<open>n\<close>-th error object
  created gets the stack text \<open>stackTexts n\<close>.
\<close>

record state =
  dbConnection :: driver
  calls :: "call list"
  logs :: "(level \<times> string) list"
  errorsCreated :: nat
  stackTexts :: "nat \<Rightarrow> string"
  transactionActive :: bool
  transactionPromise :: "unit outcome option"
  isInTransaction :: bool

definition setDbConnection :: "driver \<Rightarrow> state \<Rightarrow> state" where
  "setDbConnection connection s = s\<lparr>dbConnection := connection\<rparr>"

definition newError :: "state \<Rightarrow> error \<times> state" where
  "newError s =
     (\<lparr>message = [], stack = stackTexts s (errorsCreated s)\<rparr>,
      s\<lparr>errorsCreated := Suc (errorsCreated s)\<rparr>)"

text \<open>Modelled from the spec: \<^verbatim>\<open>log.error(text)\<close> appends an entry at error level.\<close>

definition log_error :: "string \<Rightarrow> state \<Rightarrow> state" where
  "log_error text s = s\<lparr>logs := logs s @ [(LevelError, text)]\<rparr>"

section \<open>The query executor\<close>

text \<open>
  \<^verbatim>\<open>wrap\<close> (lines 107-120). \<open>func\<close> is the arrow function that performs one call on the
  handle. On failure the log line is written first, then the message of the error created
  on entry is overwritten with the stack of the causing error, and that error is thrown.
\<close>

definition wrap :: "(driver \<Rightarrow> state \<Rightarrow> (error + 'a) \<times> state) \<Rightarrow> state \<Rightarrow> 'a outcome \<times> state" where
  "wrap func s =
     (let (thisError, s1) = newError s in
      case func (dbConnection s1) s1 of
        (Inr r, s2) \<Rightarrow> (Resolved r, s2)
      | (Inl e, s2) \<Rightarrow>
          (Rejected (thisError\<lparr>message := stack e\<rparr>),
           log_error (''Error executing query. Inner exception: '' @ stack e @ stack thisError) s2))"

text \<open>The four arrow functions \<^verbatim>\<open>db => db.run(query, ...params)\<close> and its siblings.\<close>

definition run_on :: "string \<Rightarrow> val list \<Rightarrow> driver \<Rightarrow> state \<Rightarrow> (error + run_result) \<times> state" where
  "run_on query params db s =
     (db_run db (calls s) query params, s\<lparr>calls := calls s @ [DbRun query params]\<rparr>)"

definition get_on :: "string \<Rightarrow> val list \<Rightarrow> driver \<Rightarrow> state \<Rightarrow> (error + val) \<times> state" where
  "get_on query params db s =
     (db_get db (calls s) query params, s\<lparr>calls := calls s @ [DbGet query params]\<rparr>)"

definition all_on :: "string \<Rightarrow> val list \<Rightarrow> driver \<Rightarrow> state \<Rightarrow> (error + row list) \<times> state" where
  "all_on query params db s =
     (db_all db (calls s) query params, s\<lparr>calls := calls s @ [DbAll query params]\<rparr>)"

definition exec_on :: "string \<Rightarrow> driver \<Rightarrow> state \<Rightarrow> (error + unit) \<times> state" where
  "exec_on query db s =
     (db_exec db (calls s) query, s\<lparr>calls := calls s @ [DbExec query]\<rparr>)"

definition execute :: "string \<Rightarrow> val list \<Rightarrow> state \<Rightarrow> run_result outcome \<times> state" where
  "execute query params = wrap (run_on query params)"

definition executeScript :: "string \<Rightarrow> state \<Rightarrow> unit outcome \<times> state" where
  "executeScript query = wrap (exec_on query)"

definition getRow :: "string \<Rightarrow> val list \<Rightarrow> state \<Rightarrow> val outcome \<times> state" where
  "getRow query params = wrap (get_on query params)"

definition getRows :: "string \<Rightarrow> val list \<Rightarrow> state \<Rightarrow> row list outcome \<times> state" where
  "getRows query params = wrap (all_on query params)"

text \<open>
  \<^verbatim>\<open>await\<close> followed by a computation on the awaited value: a rejection, or a promise that
  never settles, ends the caller the same way.
\<close>

definition after :: "'a outcome \<times> state \<Rightarrow> ('a \<Rightarrow> state \<Rightarrow> 'b outcome \<times> state) \<Rightarrow> 'b outcome \<times> state" where
  "after r k =
     (case r of
        (Resolved x, s) \<Rightarrow> k x s
      | (Rejected e, s) \<Rightarrow> (Rejected e, s)
      | (Unsettled, s) \<Rightarrow> (Unsettled, s))"

text \<open>\<^verbatim>\<open>keys.join(", ")\<close> on an array of strings.\<close>

fun join :: "string \<Rightarrow> string list \<Rightarrow> string" where
  "join sep [] = []"
| "join sep [x] = x"
| "join sep (x # y # ys) = x @ sep @ join sep (y # ys)"

text \<open>\<^verbatim>\<open>insert\<close> (lines 12-27) and \<^verbatim>\<open>replace\<close> (lines 29-31).\<close>

definition insert_rec :: "string \<Rightarrow> row \<Rightarrow> bool \<Rightarrow> state \<Rightarrow> val outcome \<times> state" where
  "insert_rec table_name rec replace s =
     (let keys = map fst rec in
      if length keys = 0 then
        (Resolved Undefined,
         log_error (''Can'' @ [CHR 0x27] @ ''t insert empty object into table '' @ table_name) s)
      else
        let columns = join '', '' keys;
            questionMarks = join '', '' (map (\<lambda>p. ''?'') keys);
            query = ''INSERT '' @ (if replace then ''OR REPLACE'' else []) @ '' INTO ''
                    @ table_name @ ''('' @ columns @ '') VALUES ('' @ questionMarks @ '')''
        in after (execute query (map snd rec) s) (\<lambda>res s'. (Resolved (lastID res), s')))"

definition replace_rec :: "string \<Rightarrow> row \<Rightarrow> state \<Rightarrow> val outcome \<times> state" where
  "replace_rec table_name rec = insert_rec table_name rec True"

text \<open>The transaction primitives (lines 33-43).\<close>

definition beginTransaction :: "state \<Rightarrow> run_result outcome \<times> state" where
  "beginTransaction = execute ''BEGIN'' []"

definition commit :: "state \<Rightarrow> run_result outcome \<times> state" where
  "commit = execute ''COMMIT'' []"

definition rollback :: "state \<Rightarrow> run_result outcome \<times> state" where
  "rollback = execute ''ROLLBACK'' []"

text \<open>
  \<^verbatim>\<open>getRowOrNull\<close> (lines 49-53): the first row, or \<^verbatim>\<open>null\<close> (here \<open>None\<close>).
\<close>

definition getRowOrNull :: "string \<Rightarrow> val list \<Rightarrow> state \<Rightarrow> row option outcome \<times> state" where
  "getRowOrNull query params s =
     after (getRows query params s)
       (\<lambda>all s'. (Resolved (if length all > 0 then Some (all ! 0) else None), s'))"

text \<open>
  \<open>at xs i\<close> is \<^verbatim>\<open>xs[i]\<close> on an array: \<^verbatim>\<open>undefined\<close> (here \<open>None\<close>) out of range.
  \<open>get_prop r key\<close> is \<^verbatim>\<open>r[key]\<close> on an object: an \<^verbatim>\<open>undefined\<close> key reads the property named
  "undefined", and a missing property reads as \<^verbatim>\<open>undefined\<close>.
\<close>

definition at :: "'a list \<Rightarrow> nat \<Rightarrow> 'a option" where
  "at xs i = (if i < length xs then Some (xs ! i) else None)"

definition get_prop :: "row \<Rightarrow> string option \<Rightarrow> val" where
  "get_prop r key =
     (case map_of r (case key of None \<Rightarrow> ''undefined'' | Some k \<Rightarrow> k) of
        None \<Rightarrow> Undefined
      | Some v \<Rightarrow> v)"

text \<open>\<^verbatim>\<open>getValue\<close> (lines 55-63). A row object is truthy, so \<^verbatim>\<open>!row\<close> holds for \<^verbatim>\<open>null\<close> only.\<close>

definition getValue :: "string \<Rightarrow> val list \<Rightarrow> state \<Rightarrow> val outcome \<times> state" where
  "getValue query params s =
     after (getRowOrNull query params s)
       (\<lambda>row s'. case row of
           None \<Rightarrow> (Resolved Null, s')
         | Some r \<Rightarrow> (Resolved (get_prop r (at (map fst r) 0)), s'))"

text \<open>
  \<^verbatim>\<open>getMap\<close> (lines 69-80). The result is a JavaScript object used as a dictionary:
  \<open>dictionary\<close> holds its own properties and its prototype. \<^verbatim>\<open>{}\<close> (line 70) is a plain
  object: it has no property of its own and its prototype is \<^verbatim>\<open>Object.prototype\<close>. A
  prototype is \<^verbatim>\<open>Object.prototype\<close>, \<^verbatim>\<open>null\<close>, or a plain object given by its properties
  (a value \<open>Object props\<close>, whose own prototype is \<^verbatim>\<open>Object.prototype\<close>).
\<close>

datatype prototype = ObjectPrototype | NullPrototype | PlainPrototype row

record dictionary =
  own_props :: "string \<rightharpoonup> val"
  parent :: prototype

definition empty_object :: dictionary where
  "empty_object = \<lparr>own_props = Map.empty, parent = ObjectPrototype\<rparr>"

text \<open>
  \<^verbatim>\<open>Object.prototype\<close> has one accessor property, \<^verbatim>\<open>__proto__\<close>; its other properties are
  writable data properties. An object inherits the accessor when the lookup of
  \<^verbatim>\<open>__proto__\<close> along its prototype chain reaches \<^verbatim>\<open>Object.prototype\<close>: not when the
  prototype is \<^verbatim>\<open>null\<close>, and not when the prototype is a plain object with a property
  \<^verbatim>\<open>__proto__\<close> of its own.
\<close>

fun inherits_setter :: "prototype \<Rightarrow> bool" where
  "inherits_setter ObjectPrototype = True"
| "inherits_setter NullPrototype = False"
| "inherits_setter (PlainPrototype props) = (map_of props ''__proto__'' = None)"

text \<open>
  The setter of \<^verbatim>\<open>__proto__\<close>: \<^verbatim>\<open>null\<close> or an object becomes the prototype of the object
  assigned to; any other value is ignored. No property is created.
\<close>

definition set_proto :: "val \<Rightarrow> dictionary \<Rightarrow> dictionary" where
  "set_proto v m =
     (case v of
        Null \<Rightarrow> m\<lparr>parent := NullPrototype\<rparr>
      | Object props \<Rightarrow> m\<lparr>parent := PlainPrototype props\<rparr>
      | _ \<Rightarrow> m)"

text \<open>
  \<open>assign k v m\<close> is \<^verbatim>\<open>m[k] = v\<close> for the property name \<open>k\<close>. A property the object has of
  its own is overwritten. Otherwise the name is looked up along the prototype chain: for
  \<^verbatim>\<open>__proto__\<close>, when the accessor is inherited, its setter runs; in every other case (no
  property of that name on the chain, or a writable data property) the object gets a new
  property of its own.
\<close>

definition assign :: "string \<Rightarrow> val \<Rightarrow> dictionary \<Rightarrow> dictionary" where
  "assign k v m =
     (if own_props m k = None \<and> k = ''__proto__'' \<and> inherits_setter (parent m)
      then set_proto v m
      else m\<lparr>own_props := (own_props m)(k \<mapsto> v)\<rparr>)"

text \<open>
  \<^verbatim>\<open>map[row[keys[0]]] = row[keys[1]]\<close> (line 76) converts the value \<^verbatim>\<open>row[keys[0]]\<close> to a
  property name first; that conversion belongs to the language, not to the module, and is
  the parameter \<open>toKey\<close>. The \<^verbatim>\<open>for\<close> loop over the rows is \<open>getMap_loop\<close>.
\<close>

fun getMap_loop :: "(val \<Rightarrow> string) \<Rightarrow> row list \<Rightarrow> dictionary \<Rightarrow> dictionary" where
  "getMap_loop toKey [] m = m"
| "getMap_loop toKey (row # results) m =
     (let keys = map fst row in
      getMap_loop toKey results (assign (toKey (get_prop row (at keys 0))) (get_prop row (at keys 1)) m))"

definition getMap :: "(val \<Rightarrow> string) \<Rightarrow> string \<Rightarrow> val list \<Rightarrow> state \<Rightarrow> dictionary outcome \<times> state" where
  "getMap toKey query params s =
     after (getRows query params s)
       (\<lambda>results s'. (Resolved (getMap_loop toKey results empty_object), s'))"

text \<open>\<^verbatim>\<open>getColumn\<close> (lines 82-97).\<close>

definition getColumn :: "string \<Rightarrow> val list \<Rightarrow> state \<Rightarrow> val list outcome \<times> state" where
  "getColumn query params s =
     after (getRows query params s)
       (\<lambda>result s'.
          if length result = 0 then (Resolved [], s')
          else let key = at (map fst (result ! 0)) 0
               in (Resolved (map (\<lambda>row. get_prop row key) result), s'))"

section \<open>The transaction coordinator, one call chain at a time\<close>

text \<open>
  \<^verbatim>\<open>doInTransaction\<close> (lines 125-170), as one call chain running alone sees it: every
  awaited call of the handle is answered before anything else happens. \<open>func\<close> is the
  work, any function from states to an outcome and a state.

  The catch block (lines 151-159) and the finally block (lines 160-162). The result is
  what became of the promise created at line 138. When \<^verbatim>\<open>await rollback()\<close> throws, lines
  156-158 are skipped: the catch block is left by the exception, the finally block runs,
  and the promise is never settled (the rejection of the executor's own promise is
  dropped by the \<^verbatim>\<open>Promise\<close> constructor).
\<close>

definition failed :: "error \<Rightarrow> error \<Rightarrow> state \<Rightarrow> unit outcome \<times> state" where
  "failed e error s =
     (let s1 = log_error (''Error executing transaction, executing rollback. Inner exception: ''
                          @ stack e @ stack error) s
      in case rollback s1 of
           (Resolved _, s2) \<Rightarrow>
             (Rejected e,
              s2\<lparr>transactionActive := False, transactionPromise := Some (Rejected e),
                 isInTransaction := False\<rparr>)
         | (Rejected _, s2) \<Rightarrow> (Unsettled, s2\<lparr>isInTransaction := False\<rparr>)
         | (Unsettled, s2) \<Rightarrow> (Unsettled, s2))"

text \<open>
  The executor passed to \<^verbatim>\<open>new Promise\<close> (lines 138-163). It returns the value of the
  variable \<^verbatim>\<open>ret\<close> and what became of the promise.
\<close>

definition executor :: "(state \<Rightarrow> val outcome \<times> state) \<Rightarrow> error \<Rightarrow> state \<Rightarrow> val \<times> unit outcome \<times> state" where
  "executor func error s =
     (let s1 = s\<lparr>isInTransaction := True\<rparr> in
      case beginTransaction s1 of
        (Rejected e, s2) \<Rightarrow> (Null, failed e error s2)
      | (Unsettled, s2) \<Rightarrow> (Null, Unsettled, s2)
      | (Resolved _, s2) \<Rightarrow>
          (case func s2 of
             (Rejected e, s3) \<Rightarrow> (Null, failed e error s3)
           | (Unsettled, s3) \<Rightarrow> (Null, Unsettled, s3)
           | (Resolved ret, s3) \<Rightarrow>
               (case commit s3 of
                  (Rejected e, s4) \<Rightarrow> (ret, failed e error s4)
                | (Unsettled, s4) \<Rightarrow> (ret, Unsettled, s4)
                | (Resolved _, s4) \<Rightarrow>
                    (ret, Resolved (),
                     s4\<lparr>transactionActive := False, transactionPromise := Some (Resolved ()),
                        isInTransaction := False\<rparr>))))"

text \<open>
  The function itself. With the flag set, the work runs inline (line 127). With the slot
  taken (lines 130-132) the caller awaits the promise in \<^verbatim>\<open>transactionPromise\<close>: a rejected
  one throws its error into the caller; any other leaves the caller waiting, since in this
  part no other chain runs that could clear \<^verbatim>\<open>transactionActive\<close>. Otherwise the caller
  takes the slot (line 137) and runs the executor. The test at line 165 is evaluated when
  the executor first suspends, at \<^verbatim>\<open>await beginTransaction()\<close>, so it reads the \<^verbatim>\<open>true\<close>
  written at line 137; the caller then awaits its own promise.
\<close>

definition doInTransaction :: "(state \<Rightarrow> val outcome \<times> state) \<Rightarrow> state \<Rightarrow> val outcome \<times> state" where
  "doInTransaction func s =
     (if isInTransaction s then func s
      else if transactionActive s then
        (case transactionPromise s of
           Some (Rejected e) \<Rightarrow> (Rejected e, s)
         | _ \<Rightarrow> (Unsettled, s))
      else
        let (error, s1) = newError s;
            s2 = s1\<lparr>transactionActive := True, transactionPromise := Some Unsettled\<rparr>;
            (ret, settled, s3) = executor func error s2
        in if transactionActive s2 then
             (case settled of
                Resolved _ \<Rightarrow> (Resolved ret, s3)
              | Rejected e \<Rightarrow> (Rejected e, s3)
              | Unsettled \<Rightarrow> (Unsettled, s3))
           else (Resolved ret, s3))"

section \<open>The transaction coordinator under interleaving\<close>

text \<open>
  Many call chains run on one thread and interleave at their suspension points. This part
  follows \<^verbatim>\<open>doInTransaction\<close> from one \<^verbatim>\<open>await\<close> to the next, for any number of chains.

  The work handed to \<^verbatim>\<open>doInTransaction\<close> is a tree of the actions that matter to the
  coordinator: it returns, it throws, it awaits \<^verbatim>\<open>execute(query, params)\<close> and goes on with
  the result or the error, it awaits something else, or it awaits a nested
  \<^verbatim>\<open>doInTransaction(inner)\<close> and goes on with what that call returned or threw. A chain
  does one thing at a time: every call it makes is awaited.

  Steps are atomic from one suspension to the next, as on the single thread. Where the
  source runs on without suspending (a call of \<^verbatim>\<open>doInTransaction\<close> and its first test, the
  start of the work after \<^verbatim>\<open>BEGIN\<close>), this part may cut the run into several steps; the
  pieces cut off touch nothing but the chain's own state, so every interleaving of the
  source is among those considered here.
\<close>

datatype work =
    Ret val
  | Thr error
  | Exec string "val list" "error + run_result \<Rightarrow> work"
  | Pause work
  | InTx work "error + val \<Rightarrow> work"

text \<open>
  Where a piece of work runs: under the executor of the promise with the given number
  (line 144), or anywhere else (the body of a request handler, or line 127).
\<close>

datatype ctx = Plain | Owner nat

text \<open>
  What a chain is doing. \<open>Entry func\<close>: \<^verbatim>\<open>doInTransaction(func)\<close> has been called (line 125).
  \<open>Blocked p func\<close>: suspended at line 131 on the promise read from \<^verbatim>\<open>transactionPromise\<close>.
  \<open>AwaitBegin\<close>, \<open>AwaitCommit\<close>, \<open>AwaitRollback\<close>: the executor is suspended at line 142, 146
  or 154, and the caller at line 166. \<open>AwaitOwn p ret\<close>: the executor has ended and the
  caller is still suspended at line 166 on its promise \<open>p\<close>; \<open>ret\<close> is the variable of line
  134. \<open>AwaitExec\<close>: the work is suspended on \<^verbatim>\<open>execute\<close>.
\<close>

datatype activity =
    Run ctx work
  | AwaitExec ctx "error + run_result \<Rightarrow> work"
  | Entry work
  | Blocked "nat option" work
  | AwaitBegin nat work
  | AwaitCommit nat val
  | AwaitRollback nat val error
  | AwaitOwn nat val
  | Finished "error + val"

text \<open>
  Modelled from the spec: the \<^verbatim>\<open>cls\<close> module is not among the sources; as the spec has
  it, every chain carries a flag of its own (\<open>isInTransaction_c\<close>), false at first.

  A chain: what it is doing, the suspended callers of the \<^verbatim>\<open>doInTransaction\<close> calls it is
  inside of (innermost first, each with the place it runs in), and its flag.
\<close>

record chain =
  current :: activity
  callers :: "(ctx \<times> (error + val \<Rightarrow> work)) list"
  isInTransaction_c :: bool

text \<open>A statement handed to \<^verbatim>\<open>execute\<close>: by which chain, by whom, and its text.\<close>

datatype origin = Coordinator | Work

type_synonym entry = "nat \<times> origin \<times> string"

text \<open>
  The shared state: the module's variables \<^verbatim>\<open>transactionActive\<close> and \<^verbatim>\<open>transactionPromise\<close>
  (the number of a promise object, \<open>None\<close> for \<^verbatim>\<open>null\<close>), the promise objects created at line
  138, the chains, and the statements handed to \<^verbatim>\<open>execute\<close> so far.
\<close>

record world =
  transactionActive_g :: bool
  transactionPromise_g :: "nat option"
  promises :: "unit outcome list"
  callChains :: "chain list"
  trace :: "entry list"

definition promise_state :: "world \<Rightarrow> nat \<Rightarrow> unit outcome" where
  "promise_state w p = (if p < length (promises w) then promises w ! p else Unsettled)"

definition set_chain :: "nat \<Rightarrow> chain \<Rightarrow> world \<Rightarrow> world" where
  "set_chain i c w = w\<lparr>callChains := (callChains w)[i := c]\<rparr>"

definition issue :: "entry \<Rightarrow> world \<Rightarrow> world" where
  "issue x w = w\<lparr>trace := trace w @ [x]\<rparr>"

text \<open>
  A \<^verbatim>\<open>doInTransaction\<close> call, or the work of line 127, ends with \<open>r\<close>: the innermost
  suspended caller goes on; with no caller left the chain has finished.
\<close>

definition deliver :: "error + val \<Rightarrow> chain \<Rightarrow> chain" where
  "deliver r c =
     (case callers c of
        [] \<Rightarrow> c\<lparr>current := Finished r\<rparr>
      | (cx, k) # rest \<Rightarrow> c\<lparr>current := Run cx (k r), callers := rest\<rparr>)"

text \<open>
  Lines 130-166 up to the first suspension, for chain \<open>i\<close>. With the slot taken the chain
  suspends on the promise the variable holds. Otherwise it takes the slot, creates its
  promise, sets its flag (line 140) and hands \<^verbatim>\<open>BEGIN\<close> to \<^verbatim>\<open>execute\<close> (line 142), all
  before anything else can run.
\<close>

definition contend :: "nat \<Rightarrow> work \<Rightarrow> world \<Rightarrow> world" where
  "contend i func w =
     (let c = callChains w ! i in
      if transactionActive_g w then
        set_chain i (c\<lparr>current := Blocked (transactionPromise_g w) func\<rparr>) w
      else
        let p = length (promises w) in
        issue (i, Coordinator, ''BEGIN'')
          (set_chain i (c\<lparr>current := AwaitBegin p func, isInTransaction_c := True\<rparr>)
            (w\<lparr>transactionActive_g := True, transactionPromise_g := Some p,
               promises := promises w @ [Unsettled]\<rparr>)))"

text \<open>Lines 151-154: the catch block up to \<^verbatim>\<open>await rollback()\<close>.\<close>

definition catch :: "nat \<Rightarrow> nat \<Rightarrow> val \<Rightarrow> error \<Rightarrow> world \<Rightarrow> world" where
  "catch i p ret e w =
     issue (i, Coordinator, ''ROLLBACK'')
       (set_chain i ((callChains w ! i)\<lparr>current := AwaitRollback p ret e\<rparr>) w)"

text \<open>
  Lines 148-149 or 156-158, then 161: the slot is released, the promise settled with \<open>r\<close>,
  the flag cleared.
\<close>

definition release :: "nat \<Rightarrow> nat \<Rightarrow> val \<Rightarrow> unit outcome \<Rightarrow> world \<Rightarrow> world" where
  "release i p ret r w =
     set_chain i ((callChains w ! i)\<lparr>current := AwaitOwn p ret, isInTransaction_c := False\<rparr>)
       (w\<lparr>transactionActive_g := False, promises := (promises w)[p := r]\<rparr>)"

text \<open>
  A chain that is not waiting for \<^verbatim>\<open>execute\<close> takes its next step. A chain suspended on a
  promise that is not settled stays where it is.
\<close>

definition wake :: "nat \<Rightarrow> world \<Rightarrow> world" where
  "wake i w =
     (let c = callChains w ! i in
      case current c of
        Run cx wk \<Rightarrow>
          (case wk of
             Ret v \<Rightarrow>
               (case cx of
                  Plain \<Rightarrow> set_chain i (deliver (Inr v) c) w
                | Owner p \<Rightarrow>
                    issue (i, Coordinator, ''COMMIT'') (set_chain i (c\<lparr>current := AwaitCommit p v\<rparr>) w))
           | Thr e \<Rightarrow>
               (case cx of
                  Plain \<Rightarrow> set_chain i (deliver (Inl e) c) w
                | Owner p \<Rightarrow> catch i p Null e w)
           | Exec query params k \<Rightarrow>
               issue (i, Work, query) (set_chain i (c\<lparr>current := AwaitExec cx k\<rparr>) w)
           | Pause wk' \<Rightarrow> set_chain i (c\<lparr>current := Run cx wk'\<rparr>) w
           | InTx inner k \<Rightarrow>
               set_chain i (c\<lparr>current := Entry inner, callers := (cx, k) # callers c\<rparr>) w)
      | Entry func \<Rightarrow>
          if isInTransaction_c c then set_chain i (c\<lparr>current := Run Plain func\<rparr>) w
          else contend i func w
      | Blocked awaited func \<Rightarrow>
          (case awaited of
             None \<Rightarrow> contend i func w
           | Some p \<Rightarrow>
               (case promise_state w p of
                  Unsettled \<Rightarrow> w
                | Resolved _ \<Rightarrow> contend i func w
                | Rejected e \<Rightarrow> set_chain i (deliver (Inl e) c) w))
      | AwaitOwn p ret \<Rightarrow>
          (case promise_state w p of
             Unsettled \<Rightarrow> w
           | Resolved _ \<Rightarrow> set_chain i (deliver (Inr ret) c) w
           | Rejected e \<Rightarrow> set_chain i (deliver (Inl e) c) w)
      | _ \<Rightarrow> w)"

text \<open>
  The promise of an \<^verbatim>\<open>execute\<close> call that chain \<open>i\<close> awaits settles with \<open>r\<close>: a result, or
  the error that \<^verbatim>\<open>wrap\<close> throws.
\<close>

definition reply :: "nat \<Rightarrow> error + run_result \<Rightarrow> world \<Rightarrow> world" where
  "reply i r w =
     (let c = callChains w ! i in
      case current c of
        AwaitExec cx k \<Rightarrow> set_chain i (c\<lparr>current := Run cx (k r)\<rparr>) w
      | AwaitBegin p func \<Rightarrow>
          (case r of
             Inr _ \<Rightarrow> set_chain i (c\<lparr>current := Run (Owner p) func\<rparr>) w
           | Inl e \<Rightarrow> catch i p Null e w)
      | AwaitCommit p ret \<Rightarrow>
          (case r of
             Inr _ \<Rightarrow> release i p ret (Resolved ()) w
           | Inl e \<Rightarrow> catch i p ret e w)
      | AwaitRollback p ret e \<Rightarrow>
          (case r of
             Inr _ \<Rightarrow> release i p ret (Rejected e) w
           | Inl _ \<Rightarrow> set_chain i (c\<lparr>current := AwaitOwn p ret, isInTransaction_c := False\<rparr>) w)
      | _ \<Rightarrow> w)"

datatype event = Wake nat | Reply nat "error + run_result"

fun step :: "event \<Rightarrow> world \<Rightarrow> world" where
  "step (Wake i) w = (if i < length (callChains w) then wake i w else w)"
| "step (Reply i r) w = (if i < length (callChains w) then reply i r w else w)"

fun run :: "event list \<Rightarrow> world \<Rightarrow> world" where
  "run [] w = w"
| "run (ev # evs) w = run evs (step ev w)"

text \<open>The module as loaded (lines 122-123), with one chain for every piece of work.\<close>

definition init :: "work list \<Rightarrow> world" where
  "init works =
     \<lparr>transactionActive_g = False, transactionPromise_g = None, promises = [],
      callChains = map (\<lambda>wk. \<lparr>current = Run Plain wk, callers = [], isInTransaction_c = False\<rparr>) works,
      trace = []\<rparr>"

section \<open>Vocabulary of the properties\<close>

subsection \<open>Query executor\<close>

text \<open>
  The stack text the next \<^verbatim>\<open>new Error()\<close> captures, the error \<^verbatim>\<open>wrap\<close> throws when the handle
  fails with \<open>e\<close>, the state after the handle has received a call through \<^verbatim>\<open>wrap\<close>, and the
  state after that call has failed with \<open>e\<close>.
\<close>

definition site :: "state \<Rightarrow> string" where
  "site s = stackTexts s (errorsCreated s)"

definition wrapped :: "state \<Rightarrow> error \<Rightarrow> error" where
  "wrapped s e = \<lparr>message = stack e, stack = site s\<rparr>"

definition handed :: "call \<Rightarrow> state \<Rightarrow> state" where
  "handed c s = s\<lparr>errorsCreated := Suc (errorsCreated s), calls := calls s @ [c]\<rparr>"

definition query_failed :: "call \<Rightarrow> error \<Rightarrow> state \<Rightarrow> state" where
  "query_failed c e s =
     log_error (''Error executing query. Inner exception: '' @ stack e @ site s) (handed c s)"

definition surfaced :: "state \<Rightarrow> error \<Rightarrow> call \<Rightarrow> 'a outcome \<times> state" where
  "surfaced s e c = (Rejected (wrapped s e), query_failed c e s)"

text \<open>
  The spec's wording of the error \<^verbatim>\<open>wrap\<close> re-raises: its message is the text of the cause
  joined with the captured trace (in either order).
\<close>

definition message_concatenates :: "error \<Rightarrow> string \<Rightarrow> 'a outcome \<Rightarrow> bool" where
  "message_concatenates e captured r =
     (case r of
        Rejected thrown \<Rightarrow> message thrown = stack e @ captured \<or> message thrown = captured @ stack e
      | _ \<Rightarrow> False)"

text \<open>The statement \<^verbatim>\<open>insert\<close> builds for a record.\<close>

definition insert_text :: "string \<Rightarrow> row \<Rightarrow> bool \<Rightarrow> string" where
  "insert_text table_name rec replace =
     ''INSERT '' @ (if replace then ''OR REPLACE'' else []) @ '' INTO '' @ table_name
     @ ''('' @ join '', '' (map fst rec) @ '') VALUES (''
     @ join '', '' (map (\<lambda>p. ''?'') (map fst rec)) @ '')''"

text \<open>
  A row with at least two columns, of different names; the key and value \<^verbatim>\<open>getMap\<close> takes
  from such a row.
\<close>

definition two_columns :: "row \<Rightarrow> bool" where
  "two_columns r = (case r of (k, x) # (k', y) # _ \<Rightarrow> k \<noteq> k' | _ \<Rightarrow> False)"

definition pair_of :: "(val \<Rightarrow> string) \<Rightarrow> row \<Rightarrow> string \<times> val" where
  "pair_of toKey r = (toKey (snd (r ! 0)), snd (r ! 1))"

text \<open>
  The rows none of whose keys is the property name \<^verbatim>\<open>__proto__\<close>, and the values the setter
  of \<^verbatim>\<open>__proto__\<close> ignores: everything but \<^verbatim>\<open>null\<close> and objects.
\<close>

definition ordinary_keys :: "(val \<Rightarrow> string) \<Rightarrow> row list \<Rightarrow> bool" where
  "ordinary_keys toKey rows = list_all (\<lambda>r. fst (pair_of toKey r) \<noteq> ''__proto__'') rows"

definition primitive :: "val \<Rightarrow> bool" where
  "primitive v = (case v of Null \<Rightarrow> False | Object props \<Rightarrow> False | _ \<Rightarrow> True)"

subsection \<open>Coordinator, one chain\<close>

text \<open>
  The state in which the executor hands \<^verbatim>\<open>BEGIN\<close> to the handle (after lines 135-140), the
  state in which the work starts when \<^verbatim>\<open>BEGIN\<close> has succeeded, and the line that the catch
  block logs for the error \<open>e\<close> when \<^verbatim>\<open>doInTransaction\<close> was called in state \<open>s\<close>.
\<close>

definition entered :: "state \<Rightarrow> state" where
  "entered s = (snd (newError s))\<lparr>transactionActive := True, transactionPromise := Some Unsettled,
     isInTransaction := True\<rparr>"

definition began :: "state \<Rightarrow> state" where
  "began s = handed (DbRun ''BEGIN'' []) (entered s)"

definition transaction_failed_line :: "error \<Rightarrow> state \<Rightarrow> string" where
  "transaction_failed_line e s =
     ''Error executing transaction, executing rollback. Inner exception: '' @ stack e @ site s"

subsection \<open>Coordinator under interleaving\<close>

text \<open>
  An activity inside an interval that starts when the coordinator hands over \<^verbatim>\<open>BEGIN\<close> and
  ends when it takes note of the answer to \<^verbatim>\<open>COMMIT\<close> or \<^verbatim>\<open>ROLLBACK\<close>; and the part of the
  interval before \<^verbatim>\<open>COMMIT\<close> or \<^verbatim>\<open>ROLLBACK\<close> is handed over.
\<close>

fun owning :: "activity \<Rightarrow> bool" where
  "owning (Run cx wk) = (cx \<noteq> Plain)"
| "owning (AwaitExec cx k) = (cx \<noteq> Plain)"
| "owning (AwaitBegin p func) = True"
| "owning (AwaitCommit p ret) = True"
| "owning (AwaitRollback p ret e) = True"
| "owning (Entry func) = False"
| "owning (Blocked awaited func) = False"
| "owning (AwaitOwn p ret) = False"
| "owning (Finished r) = False"

fun uncommitted :: "activity \<Rightarrow> bool" where
  "uncommitted (Run cx wk) = (cx \<noteq> Plain)"
| "uncommitted (AwaitExec cx k) = (cx \<noteq> Plain)"
| "uncommitted (AwaitBegin p func) = True"
| "uncommitted (AwaitCommit p ret) = False"
| "uncommitted (AwaitRollback p ret e) = False"
| "uncommitted (Entry func) = False"
| "uncommitted (Blocked awaited func) = False"
| "uncommitted (AwaitOwn p ret) = False"
| "uncommitted (Finished r) = False"

text \<open>
  The intervals a chain has open: one if its activity is inside one, and one for every
  suspended caller that runs under an executor. \<open>in_progress\<close> counts them over all chains.
\<close>

definition outer_owners :: "chain \<Rightarrow> nat" where
  "outer_owners c = length (filter (\<lambda>(cx, k). cx \<noteq> Plain) (callers c))"

definition open_intervals :: "chain \<Rightarrow> nat" where
  "open_intervals c = (if owning (current c) then 1 else 0) + outer_owners c"

definition in_progress :: "world \<Rightarrow> nat" where
  "in_progress w = sum_list (map open_intervals (callChains w))"

definition before_end :: "chain \<Rightarrow> bool" where
  "before_end c = (uncommitted (current c) \<or> 0 < outer_owners c)"

text \<open>
  Reading the statements in the order they were handed over: \<open>scan opened t\<close> is \<open>None\<close> if
  the coordinator hands over a \<^verbatim>\<open>BEGIN\<close> while an earlier one of its \<^verbatim>\<open>BEGIN\<close>s has not been
  followed by one of its \<^verbatim>\<open>COMMIT\<close>s or \<^verbatim>\<open>ROLLBACK\<close>s; otherwise it tells whether a \<^verbatim>\<open>BEGIN\<close>
  is open at the end.
\<close>

fun scan :: "bool \<Rightarrow> entry list \<Rightarrow> bool option" where
  "scan opened [] = Some opened"
| "scan opened ((i, who, query) # rest) =
     (if who = Coordinator \<and> query = ''BEGIN'' then
        (if opened then None else scan True rest)
      else if who = Coordinator \<and> (query = ''COMMIT'' \<or> query = ''ROLLBACK'') then scan False rest
      else scan opened rest)"

definition begins_separated :: "entry list \<Rightarrow> bool" where
  "begins_separated t = (scan False t \<noteq> None)"

text \<open>The invariant of the coordinator.\<close>

definition coordinated :: "world \<Rightarrow> bool" where
  "coordinated w \<longleftrightarrow>
     in_progress w \<le> 1
   \<and> (0 < in_progress w \<longrightarrow> transactionActive_g w)
   \<and> (\<forall>c \<in> set (callChains w). isInTransaction_c c = (0 < open_intervals c))
   \<and> (\<exists>opened. scan False (trace w) = Some opened
        \<and> (opened \<longrightarrow> (\<exists>c \<in> set (callChains w). before_end c)))"

definition finished :: "chain \<Rightarrow> bool" where
  "finished c = (case current c of Finished r \<Rightarrow> True | _ \<Rightarrow> False)"

section \<open>Sample inputs\<close>

text \<open>
  The module as loaded (lines 122-123) after \<^verbatim>\<open>setDbConnection\<close>; two errors; a handle that
  refuses the statements of a list and answers \<^verbatim>\<open>all\<close> with given rows; a handle that
  refuses everything; a work that throws at once; stack texts.
\<close>

definition loaded :: "driver \<Rightarrow> (nat \<Rightarrow> string) \<Rightarrow> state" where
  "loaded connection texts =
     \<lparr>dbConnection = connection, calls = [], logs = [], errorsCreated = 0, stackTexts = texts,
      transactionActive = False, transactionPromise = None, isInTransaction = False\<rparr>"

definition sqlite_error :: error where
  "sqlite_error = \<lparr>message = ''SQLITE_ERROR'', stack = ''Error: SQLITE_ERROR''\<rparr>"

definition boom :: error where
  "boom = \<lparr>message = ''boom'', stack = ''Error: boom''\<rparr>"

definition sample_driver :: "string list \<Rightarrow> row list \<Rightarrow> driver" where
  "sample_driver refused rows =
     \<lparr>db_run = (\<lambda>h query params.
         if query \<in> set refused then Inl sqlite_error else Inr \<lparr>lastID = Number (int (length h))\<rparr>),
      db_get = (\<lambda>h query params.
         if query \<in> set refused then Inl sqlite_error
         else Inr (case rows of [] \<Rightarrow> Undefined | r # _ \<Rightarrow> Object r)),
      db_all = (\<lambda>h query params. if query \<in> set refused then Inl sqlite_error else Inr rows),
      db_exec = (\<lambda>h query. if query \<in> set refused then Inl sqlite_error else Inr ())\<rparr>"

definition dead_driver :: "error \<Rightarrow> driver" where
  "dead_driver e =
     \<lparr>db_run = (\<lambda>h query params. Inl e), db_get = (\<lambda>h query params. Inl e),
      db_all = (\<lambda>h query params. Inl e), db_exec = (\<lambda>h query. Inl e)\<rparr>"

definition throwing :: "error \<Rightarrow> state \<Rightarrow> val outcome \<times> state" where
  "throwing e s = (Rejected e, s)"

definition returning :: "val \<Rightarrow> state \<Rightarrow> val outcome \<times> state" where
  "returning v s = (Resolved v, s)"

definition sample_texts :: "nat \<Rightarrow> string" where
  "sample_texts n = ''Error at '' @ replicate (Suc n) (CHR ''I'')"

definition text_key :: "val \<Rightarrow> string" where
  "text_key v = (case v of Text t \<Rightarrow> t | _ \<Rightarrow> ''other'')"

text \<open>
  A request handler that awaits \<^verbatim>\<open>doInTransaction(func)\<close> and ends with what the call
  returned or threw; an answer of \<^verbatim>\<open>execute\<close>; three schedules for two chains.
\<close>

definition finish :: "error + val \<Rightarrow> work" where
  "finish r = (case r of Inl e \<Rightarrow> Thr e | Inr v \<Rightarrow> Ret v)"

definition transact :: "work \<Rightarrow> work" where
  "transact func = InTx func finish"

definition fine :: "error + run_result" where
  "fine = Inr \<lparr>lastID = Undefined\<rparr>"

text \<open>
  Both chains call; the first takes the slot, the second suspends on the first's promise.
  The first's \<^verbatim>\<open>BEGIN\<close> succeeds, its work ends, its \<^verbatim>\<open>COMMIT\<close> or \<^verbatim>\<open>ROLLBACK\<close> succeeds; then
  the second chain wakes up twice.
\<close>

definition first_then_second :: "event list" where
  "first_then_second =
     [Wake 0, Wake 0, Wake 1, Wake 1, Reply 0 fine, Wake 0, Reply 0 fine, Wake 1, Wake 1]"

text \<open>
  The same up to the point where the first chain's work has ended and its \<^verbatim>\<open>ROLLBACK\<close> is
  not answered yet.
\<close>

definition first_rolls_back :: "event list" where
  "first_rolls_back = [Wake 0, Wake 0, Wake 1, Wake 1, Reply 0 fine, Wake 0]"

text \<open>
  The first chain calls and takes the slot, its \<^verbatim>\<open>BEGIN\<close> succeeds, its work ends and its
  \<^verbatim>\<open>ROLLBACK\<close> fails.
\<close>

definition rollback_fails :: "event list" where
  "rollback_fails = [Wake 0, Wake 0, Reply 0 fine, Wake 0, Reply 0 (Inl sqlite_error)]"

text \<open>
  What the two chains look like from then on: the first suspended on its own promise, the
  second before, at, or suspended in its call.
\<close>

definition jammed :: "work \<Rightarrow> world \<Rightarrow> bool" where
  "jammed func w \<longleftrightarrow>
     transactionActive_g w \<and> transactionPromise_g w = Some 0 \<and> promises w = [Unsettled]
   \<and> trace w = [(0, Coordinator, ''BEGIN''), (0, Coordinator, ''ROLLBACK'')]
   \<and> (\<exists>b. callChains w =
            [\<lparr>current = AwaitOwn 0 Null, callers = [(Plain, finish)], isInTransaction_c = False\<rparr>, b]
        \<and> (b = \<lparr>current = Run Plain (transact func), callers = [], isInTransaction_c = False\<rparr>
           \<or> b = \<lparr>current = Entry func, callers = [(Plain, finish)], isInTransaction_c = False\<rparr>
           \<or> b = \<lparr>current = Blocked (Some 0) func, callers = [(Plain, finish)],
                   isInTransaction_c = False\<rparr>))"

section \<open>The query executor: results and failures\<close>

lemma execute_ok:
  "db_run (dbConnection s) (calls s) query params = Inr r \<Longrightarrow>
   execute query params s = (Resolved r, handed (DbRun query params) s)"
  by (simp add: execute_def wrap_def newError_def run_on_def handed_def)

lemma execute_fail:
  "db_run (dbConnection s) (calls s) query params = Inl e \<Longrightarrow>
   execute query params s = (Rejected (wrapped s e), query_failed (DbRun query params) e s)"
  by (simp add: execute_def wrap_def newError_def run_on_def handed_def query_failed_def
      wrapped_def site_def log_error_def)

lemma execute_cases:
  "execute query params s =
     (case db_run (dbConnection s) (calls s) query params of
        Inr r \<Rightarrow> (Resolved r, handed (DbRun query params) s)
      | Inl e \<Rightarrow> (Rejected (wrapped s e), query_failed (DbRun query params) e s))"
  by (simp add: execute_ok execute_fail split: sum.splits)

lemma getRows_ok:
  "db_all (dbConnection s) (calls s) query params = Inr rows \<Longrightarrow>
   getRows query params s = (Resolved rows, handed (DbAll query params) s)"
  by (simp add: getRows_def wrap_def newError_def all_on_def handed_def)

lemma getRows_fail:
  "db_all (dbConnection s) (calls s) query params = Inl e \<Longrightarrow>
   getRows query params s = (Rejected (wrapped s e), query_failed (DbAll query params) e s)"
  by (simp add: getRows_def wrap_def newError_def all_on_def handed_def query_failed_def
      wrapped_def site_def log_error_def)

lemma getRow_fail:
  "db_get (dbConnection s) (calls s) query params = Inl e \<Longrightarrow>
   getRow query params s = (Rejected (wrapped s e), query_failed (DbGet query params) e s)"
  by (simp add: getRow_def wrap_def newError_def get_on_def handed_def query_failed_def
      wrapped_def site_def log_error_def)

lemma executeScript_fail:
  "db_exec (dbConnection s) (calls s) query = Inl e \<Longrightarrow>
   executeScript query s = (Rejected (wrapped s e), query_failed (DbExec query) e s)"
  by (simp add: executeScript_def wrap_def newError_def exec_on_def handed_def query_failed_def
      wrapped_def site_def log_error_def)

lemma insert_rec_nonempty:
  "insert_rec table_name (field # rec) replace s =
     after (execute (insert_text table_name (field # rec) replace) (map snd (field # rec)) s)
       (\<lambda>res s'. (Resolved (lastID res), s'))"
  unfolding insert_rec_def insert_text_def Let_def by simp

lemma getRowOrNull_ok:
  "db_all (dbConnection s) (calls s) query params = Inr rows \<Longrightarrow>
   getRowOrNull query params s =
     (Resolved (case rows of [] \<Rightarrow> None | r # _ \<Rightarrow> Some r), handed (DbAll query params) s)"
  by (cases rows) (simp_all add: getRowOrNull_def getRows_ok after_def)

lemma first_column: "get_prop ((k, v) # cols) (at (map fst ((k, v) # cols)) 0) = v"
  by (simp add: get_prop_def at_def)

lemma second_column:
  "k \<noteq> k' \<Longrightarrow>
   get_prop ((k, v) # (k', v') # cols) (at (map fst ((k, v) # (k', v') # cols)) 1) = v'"
  by (simp add: get_prop_def at_def)

lemma no_column: "get_prop [] (at (map fst []) i) = Undefined"
  by (simp add: get_prop_def at_def)

text \<open>
  C6. \<^verbatim>\<open>insert\<close> with a record of no fields hands nothing to the handle, writes one entry
  at error level and resolves to \<^verbatim>\<open>undefined\<close>, for every table name. With a record of at
  least one field it hands the \<^verbatim>\<open>INSERT\<close> statement to the handle, once, with the record's
  values as parameters, and resolves to the \<^verbatim>\<open>lastID\<close> of the handle's answer (when the
  handle refuses the statement, the failure is the one of \<^verbatim>\<open>wrap\<close>).
\<close>

theorem insert_empty_or_execute:
  "insert_rec table_name [] replace s =
     (Resolved Undefined,
      s\<lparr>logs := logs s @ [(LevelError, ''Can'' @ [CHR 0x27] @ ''t insert empty object into table ''
                                       @ table_name)]\<rparr>)
   \<and> insert_rec table_name (field # rec) replace s =
     (case db_run (dbConnection s) (calls s)
             (insert_text table_name (field # rec) replace) (map snd (field # rec)) of
        Inr res \<Rightarrow>
          (Resolved (lastID res),
           handed (DbRun (insert_text table_name (field # rec) replace) (map snd (field # rec))) s)
      | Inl e \<Rightarrow>
          surfaced s e (DbRun (insert_text table_name (field # rec) replace) (map snd (field # rec))))"
proof
  show "insert_rec table_name [] replace s =
     (Resolved Undefined,
      s\<lparr>logs := logs s @ [(LevelError, ''Can'' @ [CHR 0x27] @ ''t insert empty object into table ''
                                       @ table_name)]\<rparr>)"
    by (simp add: insert_rec_def log_error_def)
  show "insert_rec table_name (field # rec) replace s =
     (case db_run (dbConnection s) (calls s)
             (insert_text table_name (field # rec) replace) (map snd (field # rec)) of
        Inr res \<Rightarrow>
          (Resolved (lastID res),
           handed (DbRun (insert_text table_name (field # rec) replace) (map snd (field # rec))) s)
      | Inl e \<Rightarrow>
          surfaced s e (DbRun (insert_text table_name (field # rec) replace) (map snd (field # rec))))"
    unfolding insert_rec_nonempty execute_cases
    by (simp add: after_def surfaced_def split: sum.splits)
qed

text \<open>C6 on \<^verbatim>\<open>insert('notes', {})\<close> and on a record of two fields.\<close>

theorem insert_empty_or_execute_witness:
  "insert_rec ''notes'' [] False (loaded (sample_driver [] []) sample_texts) =
     (Resolved Undefined,
      (loaded (sample_driver [] []) sample_texts)
      \<lparr>logs := [(LevelError, ''Can'' @ [CHR 0x27] @ ''t insert empty object into table notes'')]\<rparr>)
   \<and> fst (insert_rec ''notes'' [(''noteId'', Text ''abc''), (''title'', Text ''t'')] False
            (loaded (sample_driver [] []) sample_texts)) = Resolved (Number 0)
   \<and> calls (snd (insert_rec ''notes'' [(''noteId'', Text ''abc''), (''title'', Text ''t'')] False
            (loaded (sample_driver [] []) sample_texts)))
       = [DbRun ''INSERT  INTO notes(noteId, title) VALUES (?, ?)'' [Text ''abc'', Text ''t'']]"
  using insert_empty_or_execute [of "''notes''" False "loaded (sample_driver [] []) sample_texts"
      "(''noteId'', Text ''abc'')" "[(''title'', Text ''t'')]"]
  by (simp add: loaded_def sample_driver_def insert_text_def handed_def)

text \<open>
  C7. When the query yields rows, \<^verbatim>\<open>getRowOrNull\<close> resolves to the first row and
  \<^verbatim>\<open>getValue\<close> to the value of the first column of the first row; when it yields no rows,
  both resolve to \<^verbatim>\<open>null\<close> and neither rejects. (A first row without any column reads as
  \<^verbatim>\<open>undefined\<close>.)
\<close>

theorem getValue_first_column_or_null:
  assumes "db_all (dbConnection s) (calls s) query params = Inr rows"
  shows "fst (getRowOrNull query params s) = Resolved (case rows of [] \<Rightarrow> None | r # _ \<Rightarrow> Some r)
       \<and> fst (getValue query params s) =
           Resolved (case rows of [] \<Rightarrow> Null | [] # _ \<Rightarrow> Undefined | ((k, v) # _) # _ \<Rightarrow> v)"
proof
  show "fst (getRowOrNull query params s) = Resolved (case rows of [] \<Rightarrow> None | r # _ \<Rightarrow> Some r)"
    by (simp add: getRowOrNull_ok [OF assms])
  show "fst (getValue query params s) =
           Resolved (case rows of [] \<Rightarrow> Null | [] # _ \<Rightarrow> Undefined | ((k, v) # _) # _ \<Rightarrow> v)"
  proof (cases rows)
    case Nil
    then show ?thesis
      by (simp add: getValue_def getRowOrNull_ok [OF assms] after_def)
  next
    case (Cons r rest)
    show ?thesis
    proof (cases r)
      case Nil
      with \<open>rows = r # rest\<close> show ?thesis
        using no_column [of 0]
        by (simp add: getValue_def getRowOrNull_ok [OF assms] after_def)
    next
      case (Cons c cols)
      obtain k v where c: "c = (k, v)" by (cases c)
      from \<open>rows = r # rest\<close> Cons c show ?thesis
        using first_column [of k v cols]
        by (simp add: getValue_def getRowOrNull_ok [OF assms] after_def)
    qed
  qed
qed

text \<open>C7 on \<^verbatim>\<open>getValue("SELECT MAX(id) FROM sync")\<close>, with no row and with one row.\<close>

theorem getValue_first_column_or_null_witness:
  "fst (getValue ''SELECT MAX(id) FROM sync'' [] (loaded (sample_driver [] []) sample_texts))
     = Resolved Null
   \<and> fst (getRowOrNull ''SELECT MAX(id) FROM sync'' [] (loaded (sample_driver [] []) sample_texts))
     = Resolved None
   \<and> fst (getValue ''SELECT MAX(id) FROM sync'' []
            (loaded (sample_driver [] [[(''MAX(id)'', Number 7)]]) sample_texts))
     = Resolved (Number 7)"
proof -
  have none: "db_all (dbConnection (loaded (sample_driver [] []) sample_texts))
                (calls (loaded (sample_driver [] []) sample_texts))
                ''SELECT MAX(id) FROM sync'' [] = Inr []"
    by (simp add: loaded_def sample_driver_def)
  have one: "db_all (dbConnection (loaded (sample_driver [] [[(''MAX(id)'', Number 7)]]) sample_texts))
                (calls (loaded (sample_driver [] [[(''MAX(id)'', Number 7)]]) sample_texts))
                ''SELECT MAX(id) FROM sync'' [] = Inr [[(''MAX(id)'', Number 7)]]"
    by (simp add: loaded_def sample_driver_def)
  from getValue_first_column_or_null [OF none] getValue_first_column_or_null [OF one]
  show ?thesis by simp
qed

lemma two_columns_pair:
  assumes "two_columns r"
  shows "(toKey (get_prop r (at (map fst r) 0)), get_prop r (at (map fst r) 1)) = pair_of toKey r"
proof -
  from assms obtain k x k' y rest where r: "r = (k, x) # (k', y) # rest" and "k \<noteq> k'"
    by (auto simp: two_columns_def split: list.splits prod.splits)
  then show ?thesis
    using first_column [of k x "(k', y) # rest"] second_column [of k k' x y rest]
    by (simp add: pair_of_def)
qed

lemma getMap_loop_pairs:
  assumes "list_all two_columns rows"
  shows "getMap_loop toKey rows m
       = foldl (\<lambda>m kv. assign (fst kv) (snd kv) m) m (map (pair_of toKey) rows)"
  using assms
proof (induction rows arbitrary: m)
  case Nil
  then show ?case by simp
next
  case (Cons r rows)
  from Cons.prems have r: "two_columns r" and rows: "list_all two_columns rows" by simp_all
  have "getMap_loop toKey (r # rows) m
      = getMap_loop toKey rows (assign (toKey (get_prop r (at (map fst r) 0))) (get_prop r (at (map fst r) 1)) m)"
    by (simp add: Let_def)
  also have "\<dots> = getMap_loop toKey rows (assign (fst (pair_of toKey r)) (snd (pair_of toKey r)) m)"
    using two_columns_pair [OF r, of toKey, symmetric] by simp
  also have "\<dots> = foldl (\<lambda>m kv. assign (fst kv) (snd kv) m)
                     (assign (fst (pair_of toKey r)) (snd (pair_of toKey r)) m)
                     (map (pair_of toKey) rows)"
    by (rule Cons.IH [OF rows])
  finally show ?case by simp
qed

lemma assign_ordinary:
  assumes "k \<noteq> ''__proto__''"
  shows "assign k v m = m\<lparr>own_props := (own_props m)(k \<mapsto> v)\<rparr>"
  using assms by (simp add: assign_def)

lemma assign_ignored:
  assumes "primitive v"
  shows "assign ''__proto__'' v empty_object = empty_object"
  using assms by (cases v) (simp_all add: assign_def empty_object_def set_proto_def primitive_def)

text \<open>
  After \<^verbatim>\<open>map['__proto__'] = null\<close> the object has no prototype, hence no setter: the next
  assignment to \<^verbatim>\<open>__proto__\<close> creates a property.
\<close>

lemma assign_after_null:
  "assign ''__proto__'' v (assign ''__proto__'' Null empty_object)
     = \<lparr>own_props = [''__proto__'' \<mapsto> v], parent = NullPrototype\<rparr>"
  by (simp add: assign_def empty_object_def set_proto_def)

lemma foldl_assign_ordinary:
  assumes "list_all (\<lambda>kv. fst kv \<noteq> ''__proto__'') kvs"
  shows "foldl (\<lambda>m kv. assign (fst kv) (snd kv) m) m kvs
       = m\<lparr>own_props := own_props m ++ map_of (rev kvs)\<rparr>"
  using assms
proof (induction kvs arbitrary: m)
  case Nil
  then show ?case by simp
next
  case (Cons kv kvs)
  from Cons.prems have kv: "fst kv \<noteq> ''__proto__''"
    and kvs: "list_all (\<lambda>kv. fst kv \<noteq> ''__proto__'') kvs" by simp_all
  have maps: "(own_props m)(fst kv \<mapsto> snd kv) ++ map_of (rev kvs)
            = own_props m ++ map_of (rev (kv # kvs))"
    by (rule ext) (simp add: map_add_def split: option.splits)
  show ?case
    unfolding foldl_Cons assign_ordinary [OF kv] Cons.IH [OF kvs]
    using maps by simp
qed

lemma getMap_loop_ordinary:
  assumes "list_all two_columns rows"
    and "ordinary_keys toKey rows"
  shows "getMap_loop toKey rows empty_object
       = \<lparr>own_props = map_of (rev (map (pair_of toKey) rows)), parent = ObjectPrototype\<rparr>"
proof -
  from assms(2) have "list_all (\<lambda>kv. fst kv \<noteq> ''__proto__'') (map (pair_of toKey) rows)"
    by (simp add: ordinary_keys_def list_all_iff)
  from foldl_assign_ordinary [OF this, of empty_object] show ?thesis
    unfolding getMap_loop_pairs [OF assms(1)] by (simp add: empty_object_def)
qed

lemma last_write_wins:
  assumes "i < length kvs"
    and "\<forall>j. i < j \<and> j < length kvs \<longrightarrow> fst (kvs ! j) \<noteq> fst (kvs ! i)"
  shows "map_of (rev kvs) (fst (kvs ! i)) = Some (snd (kvs ! i))"
  using assms
proof (induction kvs rule: rev_induct)
  case Nil
  then show ?case by simp
next
  case (snoc kv kvs)
  show ?case
  proof (cases "i = length kvs")
    case True
    then show ?thesis by (cases kv) simp
  next
    case False
    with snoc.prems(1) have i: "i < length kvs" by simp
    have "fst ((kvs @ [kv]) ! length kvs) \<noteq> fst ((kvs @ [kv]) ! i)"
      using snoc.prems(2) i by (metis length_append_singleton lessI)
    then have ne: "fst kv \<noteq> fst (kvs ! i)" using i by (simp add: nth_append)
    have "\<forall>j. i < j \<and> j < length kvs \<longrightarrow> fst (kvs ! j) \<noteq> fst (kvs ! i)"
    proof (intro allI impI)
      fix j assume j: "i < j \<and> j < length kvs"
      then have "fst ((kvs @ [kv]) ! j) \<noteq> fst ((kvs @ [kv]) ! i)"
        using snoc.prems(2) by simp
      with j i show "fst (kvs ! j) \<noteq> fst (kvs ! i)" by (simp add: nth_append)
    qed
    from snoc.IH [OF i this] ne i show ?thesis
      by (cases kv) (simp add: nth_append)
  qed
qed

lemma absent_key:
  assumes "list_all (\<lambda>kv. fst kv \<noteq> k) kvs"
  shows "map_of (rev kvs) k = None"
  using assms by (auto simp: map_of_eq_None_iff list_all_iff)

text \<open>
  Where C8 holds. When the query yields rows of two columns and no key is the property name
  \<^verbatim>\<open>__proto__\<close>, \<^verbatim>\<open>getMap\<close> resolves (duplicates are no error) to a plain object whose
  properties take the first column of every row, as a property name, to a second column:
  the map read off the rows from the last to the first. So for rows \<open>i \<le> j\<close> with the same
  key, \<open>j\<close> being the last row with that key, the key is mapped to the value of row \<open>j\<close>: the
  later row overwrites the earlier.
\<close>

lemma getMap_last_write_wins:
  assumes "db_all (dbConnection s) (calls s) query params = Inr rows"
    and "list_all two_columns rows"
    and "ordinary_keys toKey rows"
  shows "fst (getMap toKey query params s)
           = Resolved \<lparr>own_props = map_of (rev (map (pair_of toKey) rows)), parent = ObjectPrototype\<rparr>
       \<and> (\<forall>i j. i \<le> j \<and> j < length rows
              \<and> fst (pair_of toKey (rows ! i)) = fst (pair_of toKey (rows ! j))
              \<and> (\<forall>l. j < l \<and> l < length rows
                    \<longrightarrow> fst (pair_of toKey (rows ! l)) \<noteq> fst (pair_of toKey (rows ! j)))
            \<longrightarrow> map_of (rev (map (pair_of toKey) rows)) (fst (pair_of toKey (rows ! i)))
                  = Some (snd (pair_of toKey (rows ! j))))"
proof
  show "fst (getMap toKey query params s)
          = Resolved \<lparr>own_props = map_of (rev (map (pair_of toKey) rows)), parent = ObjectPrototype\<rparr>"
    by (simp add: getMap_def getRows_ok [OF assms(1)] after_def getMap_loop_ordinary [OF assms(2,3)])
  show "\<forall>i j. i \<le> j \<and> j < length rows
              \<and> fst (pair_of toKey (rows ! i)) = fst (pair_of toKey (rows ! j))
              \<and> (\<forall>l. j < l \<and> l < length rows
                    \<longrightarrow> fst (pair_of toKey (rows ! l)) \<noteq> fst (pair_of toKey (rows ! j)))
            \<longrightarrow> map_of (rev (map (pair_of toKey) rows)) (fst (pair_of toKey (rows ! i)))
                  = Some (snd (pair_of toKey (rows ! j)))"
  proof (intro allI impI)
    fix i j
    assume h: "i \<le> j \<and> j < length rows
              \<and> fst (pair_of toKey (rows ! i)) = fst (pair_of toKey (rows ! j))
              \<and> (\<forall>l. j < l \<and> l < length rows
                    \<longrightarrow> fst (pair_of toKey (rows ! l)) \<noteq> fst (pair_of toKey (rows ! j)))"
    let ?kvs = "map (pair_of toKey) rows"
    have "map_of (rev ?kvs) (fst (?kvs ! j)) = Some (snd (?kvs ! j))"
      by (rule last_write_wins) (use h in auto)
    with h show "map_of (rev ?kvs) (fst (pair_of toKey (rows ! i))) = Some (snd (pair_of toKey (rows ! j)))"
      by simp
  qed
qed

text \<open>On the rows \<open>(k1, v1), (k1, v2)\<close> the result is \<open>{k1: v2}\<close>.\<close>

lemma getMap_last_write_wins_example:
  "fst (getMap text_key ''SELECT name, value FROM options'' []
          (loaded (sample_driver []
             [[(''name'', Text ''k1''), (''value'', Number 1)],
              [(''name'', Text ''k1''), (''value'', Number 2)]]) sample_texts))
     = Resolved \<lparr>own_props = [''k1'' \<mapsto> Number 2], parent = ObjectPrototype\<rparr>"
proof -
  let ?rows = "[[(''name'', Text ''k1''), (''value'', Number 1)],
                [(''name'', Text ''k1''), (''value'', Number 2)]]"
  let ?s = "loaded (sample_driver [] ?rows) sample_texts"
  have rows: "db_all (dbConnection ?s) (calls ?s) ''SELECT name, value FROM options'' [] = Inr ?rows"
    by (simp add: loaded_def sample_driver_def)
  have shape: "list_all two_columns ?rows"
    by (simp add: two_columns_def)
  have keys: "ordinary_keys text_key ?rows"
    by (simp add: ordinary_keys_def pair_of_def text_key_def)
  have "map_of (rev (map (pair_of text_key) ?rows)) = [''k1'' \<mapsto> Number 2]"
    by (rule ext) (simp add: pair_of_def text_key_def)
  with getMap_last_write_wins [OF rows shape keys] show ?thesis
    by simp
qed

text \<open>
  C8, as the spec words it ("for every query result sequence"), fails on a row whose key
  is the property name \<^verbatim>\<open>__proto__\<close>. Let the first row of the result have that key and a
  value that is neither \<^verbatim>\<open>null\<close> nor an object, and let the other rows have other keys.
  Then \<^verbatim>\<open>map[row[keys[0]]] = row[keys[1]]\<close> (line 76) runs the setter that the \<^verbatim>\<open>{}\<close> of line
  70 inherits, which ignores the value: \<^verbatim>\<open>getMap\<close> resolves to the object that the other
  rows alone give, and the key of the first row is mapped to nothing.
\<close>

theorem getMap_drops_proto_row:
  assumes "db_all (dbConnection s) (calls s) query params = Inr (r # rows)"
    and "list_all two_columns (r # rows)"
    and "fst (pair_of toKey r) = ''__proto__''"
    and "primitive (snd (pair_of toKey r))"
    and "ordinary_keys toKey rows"
  shows "fst (getMap toKey query params s)
           = Resolved \<lparr>own_props = map_of (rev (map (pair_of toKey) rows)), parent = ObjectPrototype\<rparr>
       \<and> map_of (rev (map (pair_of toKey) rows)) (fst (pair_of toKey r)) = None"
proof
  from assms(2) have r: "two_columns r" and shape: "list_all two_columns rows" by simp_all
  have "getMap_loop toKey (r # rows) empty_object
      = getMap_loop toKey rows (assign (toKey (get_prop r (at (map fst r) 0))) (get_prop r (at (map fst r) 1)) empty_object)"
    by (simp add: Let_def)
  also have "\<dots> = getMap_loop toKey rows (assign (fst (pair_of toKey r)) (snd (pair_of toKey r)) empty_object)"
    using two_columns_pair [OF r, of toKey, symmetric] by simp
  also have "\<dots> = getMap_loop toKey rows empty_object"
    unfolding assms(3) assign_ignored [OF assms(4)] ..
  also have "\<dots> = \<lparr>own_props = map_of (rev (map (pair_of toKey) rows)), parent = ObjectPrototype\<rparr>"
    by (rule getMap_loop_ordinary [OF shape assms(5)])
  finally have loop: "getMap_loop toKey (r # rows) empty_object
      = \<lparr>own_props = map_of (rev (map (pair_of toKey) rows)), parent = ObjectPrototype\<rparr>" .
  show "fst (getMap toKey query params s)
          = Resolved \<lparr>own_props = map_of (rev (map (pair_of toKey) rows)), parent = ObjectPrototype\<rparr>"
    by (simp add: getMap_def getRows_ok [OF assms(1)] after_def loop del: getMap_loop.simps)
  from assms(5) have "list_all (\<lambda>kv. fst kv \<noteq> ''__proto__'') (map (pair_of toKey) rows)"
    by (simp add: ordinary_keys_def list_all_iff)
  then show "map_of (rev (map (pair_of toKey) rows)) (fst (pair_of toKey r)) = None"
    unfolding assms(3) by (rule absent_key)
qed

text \<open>
  C8 on the rows \<open>(__proto__, 1), (a, 2)\<close>: the result is \<open>{a: 2}\<close>, without an entry for the
  first row.
\<close>

theorem getMap_drops_proto_row_witness:
  "fst (getMap text_key ''SELECT name, value FROM options'' []
          (loaded (sample_driver []
             [[(''name'', Text ''__proto__''), (''value'', Number 1)],
              [(''name'', Text ''a''), (''value'', Number 2)]]) sample_texts))
     = Resolved \<lparr>own_props = [''a'' \<mapsto> Number 2], parent = ObjectPrototype\<rparr>
   \<and> [''a'' \<mapsto> Number 2] ''__proto__'' = None"
proof -
  let ?r = "[(''name'', Text ''__proto__''), (''value'', Number 1)]"
  let ?rows = "[[(''name'', Text ''a''), (''value'', Number 2)]]"
  let ?s = "loaded (sample_driver [] (?r # ?rows)) sample_texts"
  have rows: "db_all (dbConnection ?s) (calls ?s) ''SELECT name, value FROM options'' [] = Inr (?r # ?rows)"
    by (simp add: loaded_def sample_driver_def)
  have shape: "list_all two_columns (?r # ?rows)"
    by (simp add: two_columns_def)
  have key: "fst (pair_of text_key ?r) = ''__proto__''"
    by (simp add: pair_of_def text_key_def)
  have ignored: "primitive (snd (pair_of text_key ?r))"
    by (simp add: pair_of_def primitive_def)
  have keys: "ordinary_keys text_key ?rows"
    by (simp add: ordinary_keys_def pair_of_def text_key_def)
  have "map_of (rev (map (pair_of text_key) ?rows)) = [''a'' \<mapsto> Number 2]"
    by (rule ext) (simp add: pair_of_def text_key_def)
  with getMap_drops_proto_row [OF rows shape key ignored keys] show ?thesis
    by simp
qed

text \<open>
  C9, as the spec words it, fails: the message of the error that \<^verbatim>\<open>wrap\<close> re-raises is the
  stack text of the cause alone (line 116); the captured trace is not part of it. Here
  \<^verbatim>\<open>execute\<close> runs on a handle that refuses every statement.
\<close>

theorem wrap_message_is_cause_only:
  "\<not> message_concatenates sqlite_error (site (loaded (dead_driver sqlite_error) sample_texts))
       (fst (execute ''SELECT 1'' [] (loaded (dead_driver sqlite_error) sample_texts)))"
  by (simp add: message_concatenates_def execute_def wrap_def newError_def run_on_def log_error_def
      loaded_def dead_driver_def sqlite_error_def sample_texts_def site_def)

text \<open>
  C9, amended. When the call a helper makes on the handle fails with \<open>e\<close>, the helper rejects
  (none swallows the failure) with one error, whose message is the stack text of \<open>e\<close> and
  whose stack is the trace captured on entry to \<^verbatim>\<open>wrap\<close>; the handle has received that one
  call, and the log has one more entry at error level: the fixed prefix followed by the
  stack text of \<open>e\<close> and the captured trace. (\<^verbatim>\<open>insert\<close> and \<^verbatim>\<open>replace\<close>: for a record with a
  field.)
\<close>

theorem driver_failure_surfaces:
  "(db_run (dbConnection s) (calls s) query params = Inl e
      \<longrightarrow> execute query params s = surfaced s e (DbRun query params))
   \<and> (db_exec (dbConnection s) (calls s) query = Inl e
      \<longrightarrow> executeScript query s = surfaced s e (DbExec query))
   \<and> (db_get (dbConnection s) (calls s) query params = Inl e
      \<longrightarrow> getRow query params s = surfaced s e (DbGet query params))
   \<and> (db_all (dbConnection s) (calls s) query params = Inl e
      \<longrightarrow> getRows query params s = surfaced s e (DbAll query params)
        \<and> getRowOrNull query params s = surfaced s e (DbAll query params)
        \<and> getValue query params s = surfaced s e (DbAll query params)
        \<and> getMap toKey query params s = surfaced s e (DbAll query params)
        \<and> getColumn query params s = surfaced s e (DbAll query params))
   \<and> (db_run (dbConnection s) (calls s) (insert_text table_name (field # rec) replace)
          (map snd (field # rec)) = Inl e
      \<longrightarrow> insert_rec table_name (field # rec) replace s
            = surfaced s e (DbRun (insert_text table_name (field # rec) replace) (map snd (field # rec))))
   \<and> (db_run (dbConnection s) (calls s) (insert_text table_name (field # rec) True)
          (map snd (field # rec)) = Inl e
      \<longrightarrow> replace_rec table_name (field # rec) s
            = surfaced s e (DbRun (insert_text table_name (field # rec) True) (map snd (field # rec))))
   \<and> (db_run (dbConnection s) (calls s) ''BEGIN'' [] = Inl e
      \<longrightarrow> beginTransaction s = surfaced s e (DbRun ''BEGIN'' []))
   \<and> (db_run (dbConnection s) (calls s) ''COMMIT'' [] = Inl e
      \<longrightarrow> commit s = surfaced s e (DbRun ''COMMIT'' []))
   \<and> (db_run (dbConnection s) (calls s) ''ROLLBACK'' [] = Inl e
      \<longrightarrow> rollback s = surfaced s e (DbRun ''ROLLBACK'' []))
   \<and> fst (surfaced s e c) = Rejected \<lparr>message = stack e, stack = site s\<rparr>
   \<and> calls (snd (surfaced s e c)) = calls s @ [c]
   \<and> logs (snd (surfaced s e c))
        = logs s @ [(LevelError, ''Error executing query. Inner exception: '' @ stack e @ site s)]"
proof -
  have run: "execute q ps s = surfaced s e (DbRun q ps)"
    if "db_run (dbConnection s) (calls s) q ps = Inl e" for q ps
    by (simp add: execute_fail [OF that] surfaced_def)
  have all: "getRows query params s = surfaced s e (DbAll query params)"
    if "db_all (dbConnection s) (calls s) query params = Inl e"
    by (simp add: getRows_fail [OF that] surfaced_def)
  have through: "after (surfaced s e c') k = surfaced s e c'" for c' and k :: "'x \<Rightarrow> state \<Rightarrow> 'y outcome \<times> state"
    by (simp add: after_def surfaced_def)
  have tail: "fst (surfaced s e c) = Rejected \<lparr>message = stack e, stack = site s\<rparr>
     \<and> calls (snd (surfaced s e c)) = calls s @ [c]
     \<and> logs (snd (surfaced s e c))
        = logs s @ [(LevelError, ''Error executing query. Inner exception: '' @ stack e @ site s)]"
    by (simp add: surfaced_def wrapped_def query_failed_def log_error_def handed_def)
  show ?thesis
  proof (intro conjI impI)
    assume "db_exec (dbConnection s) (calls s) query = Inl e"
    then show "executeScript query s = surfaced s e (DbExec query)"
      by (simp add: executeScript_fail surfaced_def)
  next
    assume "db_get (dbConnection s) (calls s) query params = Inl e"
    then show "getRow query params s = surfaced s e (DbGet query params)"
      by (simp add: getRow_fail surfaced_def)
  next
    assume h: "db_all (dbConnection s) (calls s) query params = Inl e"
    show "getRowOrNull query params s = surfaced s e (DbAll query params)"
      unfolding getRowOrNull_def all [OF h] by (rule through)
    then show "getValue query params s = surfaced s e (DbAll query params)"
      unfolding getValue_def by (simp add: through)
    show "getMap toKey query params s = surfaced s e (DbAll query params)"
      unfolding getMap_def all [OF h] by (rule through)
    show "getColumn query params s = surfaced s e (DbAll query params)"
      unfolding getColumn_def all [OF h] by (rule through)
  next
    assume "db_run (dbConnection s) (calls s) (insert_text table_name (field # rec) replace)
          (map snd (field # rec)) = Inl e"
    then show "insert_rec table_name (field # rec) replace s
            = surfaced s e (DbRun (insert_text table_name (field # rec) replace) (map snd (field # rec)))"
      unfolding insert_rec_nonempty by (simp add: run through)
  next
    assume "db_run (dbConnection s) (calls s) (insert_text table_name (field # rec) True)
          (map snd (field # rec)) = Inl e"
    then show "replace_rec table_name (field # rec) s
            = surfaced s e (DbRun (insert_text table_name (field # rec) True) (map snd (field # rec)))"
      unfolding replace_rec_def insert_rec_nonempty by (simp add: run through)
  next
    assume "db_run (dbConnection s) (calls s) query params = Inl e"
    then show "execute query params s = surfaced s e (DbRun query params)" by (rule run)
  next
    assume "db_all (dbConnection s) (calls s) query params = Inl e"
    then show "getRows query params s = surfaced s e (DbAll query params)" by (rule all)
  next
    assume "db_run (dbConnection s) (calls s) ''BEGIN'' [] = Inl e"
    then show "beginTransaction s = surfaced s e (DbRun ''BEGIN'' [])"
      unfolding beginTransaction_def by (rule run)
  next
    assume "db_run (dbConnection s) (calls s) ''COMMIT'' [] = Inl e"
    then show "commit s = surfaced s e (DbRun ''COMMIT'' [])"
      unfolding commit_def by (rule run)
  next
    assume "db_run (dbConnection s) (calls s) ''ROLLBACK'' [] = Inl e"
    then show "rollback s = surfaced s e (DbRun ''ROLLBACK'' [])"
      unfolding rollback_def by (rule run)
  next
    show "fst (surfaced s e c) = Rejected \<lparr>message = stack e, stack = site s\<rparr>"
      using tail by (rule conjunct1)
    show "calls (snd (surfaced s e c)) = calls s @ [c]"
      using tail by (rule conjunct2 [THEN conjunct1])
    show "logs (snd (surfaced s e c))
        = logs s @ [(LevelError, ''Error executing query. Inner exception: '' @ stack e @ site s)]"
      using tail by (rule conjunct2 [THEN conjunct2])
  qed
qed

text \<open>C9, amended, on \<^verbatim>\<open>getValue\<close> with a handle that refuses every statement.\<close>

theorem driver_failure_surfaces_witness:
  "fst (getValue ''SELECT MAX(id) FROM sync'' [] (loaded (dead_driver sqlite_error) sample_texts))
     = Rejected \<lparr>message = ''Error: SQLITE_ERROR'', stack = ''Error at I''\<rparr>
   \<and> calls (snd (getValue ''SELECT MAX(id) FROM sync'' [] (loaded (dead_driver sqlite_error) sample_texts)))
     = [DbAll ''SELECT MAX(id) FROM sync'' []]
   \<and> logs (snd (getValue ''SELECT MAX(id) FROM sync'' [] (loaded (dead_driver sqlite_error) sample_texts)))
     = [(LevelError, ''Error executing query. Inner exception: Error: SQLITE_ERRORError at I'')]"
proof -
  let ?s = "loaded (dead_driver sqlite_error) sample_texts"
  let ?c = "DbAll ''SELECT MAX(id) FROM sync'' []"
  have refused: "db_all (dbConnection ?s) (calls ?s) ''SELECT MAX(id) FROM sync'' [] = Inl sqlite_error"
    by (simp add: loaded_def dead_driver_def)
  note all = driver_failure_surfaces [of ?s "''SELECT MAX(id) FROM sync''" "[]" sqlite_error _ _ _ _ _ ?c]
  from all refused have "getValue ''SELECT MAX(id) FROM sync'' [] ?s = surfaced ?s sqlite_error ?c"
    by blast
  moreover from all have "fst (surfaced ?s sqlite_error ?c)
        = Rejected \<lparr>message = stack sqlite_error, stack = site ?s\<rparr>
     \<and> calls (snd (surfaced ?s sqlite_error ?c)) = calls ?s @ [?c]
     \<and> logs (snd (surfaced ?s sqlite_error ?c))
        = logs ?s @ [(LevelError, ''Error executing query. Inner exception: ''
                                   @ stack sqlite_error @ site ?s)]"
    by blast
  ultimately show ?thesis
    by (simp add: site_def loaded_def sqlite_error_def sample_texts_def)
qed

section \<open>The coordinator, one chain: reentrancy, commit and rollback\<close>

lemma execute_flag:
  "execute query params s = (r, s') \<Longrightarrow> isInTransaction s' = isInTransaction s"
  by (auto simp: execute_cases handed_def query_failed_def log_error_def split: sum.splits)

lemma doInTransaction_inline:
  "isInTransaction s \<Longrightarrow> doInTransaction func s = func s"
  by (simp add: doInTransaction_def)

lemma executor_nested:
  "executor (doInTransaction func) error s = executor func error s"
proof -
  have "doInTransaction func s2 = func s2"
    if "beginTransaction (s\<lparr>isInTransaction := True\<rparr>) = (r, s2)" for r s2
    using execute_flag [OF that [unfolded beginTransaction_def]]
    by (simp add: doInTransaction_inline)
  then show ?thesis
    by (auto simp: executor_def split: prod.splits outcome.splits)
qed

lemma doInTransaction_nested:
  "doInTransaction (doInTransaction func) s = doInTransaction func s"
proof (cases "isInTransaction s")
  case True
  then show ?thesis by (simp add: doInTransaction_inline)
next
  case False
  then show ?thesis
    by (simp add: doInTransaction_def executor_nested)
qed

lemma failed_cases:
  "failed e error s =
     (case db_run (dbConnection s) (calls s) ''ROLLBACK'' [] of
        Inr r \<Rightarrow>
          (Rejected e,
           (handed (DbRun ''ROLLBACK'' [])
              (log_error (''Error executing transaction, executing rollback. Inner exception: ''
                          @ stack e @ stack error) s))
           \<lparr>transactionActive := False, transactionPromise := Some (Rejected e),
            isInTransaction := False\<rparr>)
      | Inl e2 \<Rightarrow>
          (Unsettled,
           (query_failed (DbRun ''ROLLBACK'' []) e2
              (log_error (''Error executing transaction, executing rollback. Inner exception: ''
                          @ stack e @ stack error) s))
           \<lparr>isInTransaction := False\<rparr>))"
  unfolding failed_def rollback_def Let_def execute_cases
  by (simp add: log_error_def split: sum.splits)

lemma doInTransaction_owner:
  assumes "\<not> isInTransaction s" and "\<not> transactionActive s"
  shows "doInTransaction func s =
     (case executor func (fst (newError s)) (entered s) of
        (ret, Resolved _, s3) \<Rightarrow> (Resolved ret, s3)
      | (ret, Rejected e, s3) \<Rightarrow> (Rejected e, s3)
      | (ret, Unsettled, s3) \<Rightarrow> (Unsettled, s3))"
proof -
  have "executor func error (s'\<lparr>isInTransaction := True\<rparr>) = executor func error s'" for error s'
    by (simp add: executor_def)
  from this [of "fst (newError s)"
      "(snd (newError s))\<lparr>transactionActive := True, transactionPromise := Some Unsettled\<rparr>"]
  show ?thesis
    using assms
    by (simp add: doInTransaction_def entered_def split: prod.splits outcome.splits)
qed

lemma executor_begun:
  assumes "db_run (dbConnection s) (calls s) ''BEGIN'' [] = Inr rb"
  shows "executor func error (entered s) =
     (case func (began s) of
        (Rejected e, s3) \<Rightarrow> (Null, failed e error s3)
      | (Unsettled, s3) \<Rightarrow> (Null, Unsettled, s3)
      | (Resolved ret, s3) \<Rightarrow>
          (case commit s3 of
             (Rejected e, s4) \<Rightarrow> (ret, failed e error s4)
           | (Unsettled, s4) \<Rightarrow> (ret, Unsettled, s4)
           | (Resolved _, s4) \<Rightarrow>
               (ret, Resolved (),
                s4\<lparr>transactionActive := False, transactionPromise := Some (Resolved ()),
                   isInTransaction := False\<rparr>)))"
proof -
  have "(entered s)\<lparr>isInTransaction := True\<rparr> = entered s"
    by (simp add: entered_def)
  moreover have "db_run (dbConnection (entered s)) (calls (entered s)) ''BEGIN'' [] = Inr rb"
    using assms by (simp add: entered_def newError_def)
  ultimately show ?thesis
    by (simp add: executor_def beginTransaction_def execute_ok began_def)
qed

text \<open>The transaction is committed: the work's value, the slot free, the flag cleared.\<close>

lemma committed:
  assumes "\<not> isInTransaction s" and "\<not> transactionActive s"
    and "db_run (dbConnection s) (calls s) ''BEGIN'' [] = Inr rb"
    and "func (began s) = (Resolved v, sw)"
    and "db_run (dbConnection sw) (calls sw) ''COMMIT'' [] = Inr rc"
  shows "doInTransaction func s =
     (Resolved v,
      (handed (DbRun ''COMMIT'' []) sw)
      \<lparr>transactionActive := False, transactionPromise := Some (Resolved ()), isInTransaction := False\<rparr>)"
  using assms
  by (simp add: doInTransaction_owner executor_begun commit_def execute_ok)

text \<open>
  The work throws \<open>e\<close> and the rollback succeeds: \<^verbatim>\<open>ROLLBACK\<close> is handed over once, after
  the work's calls; the slot is free, the flag cleared, and the caller gets \<open>e\<close>.
\<close>

lemma transaction_body_failure:
  assumes "\<not> isInTransaction s" and "\<not> transactionActive s"
    and "db_run (dbConnection s) (calls s) ''BEGIN'' [] = Inr rb"
    and "func (began s) = (Rejected e, sw)"
    and "db_run (dbConnection sw) (calls sw) ''ROLLBACK'' [] = Inr rr"
  shows "doInTransaction func s =
     (Rejected e,
      (handed (DbRun ''ROLLBACK'' []) (log_error (transaction_failed_line e s) sw))
      \<lparr>transactionActive := False, transactionPromise := Some (Rejected e), isInTransaction := False\<rparr>)"
  using assms
  by (simp add: doInTransaction_owner executor_begun failed_cases transaction_failed_line_def
      site_def newError_def)

text \<open>
  The work throws \<open>e\<close> and the rollback fails with \<open>e2\<close>: both are logged and the flag is
  cleared, but \<^verbatim>\<open>transactionActive\<close> and \<^verbatim>\<open>transactionPromise\<close> are as the work left them,
  and the caller's promise is never settled.
\<close>

lemma rollback_failure:
  assumes "\<not> isInTransaction s" and "\<not> transactionActive s"
    and "db_run (dbConnection s) (calls s) ''BEGIN'' [] = Inr rb"
    and "func (began s) = (Rejected e, sw)"
    and "db_run (dbConnection sw) (calls sw) ''ROLLBACK'' [] = Inl e2"
  shows "doInTransaction func s =
     (Unsettled,
      (query_failed (DbRun ''ROLLBACK'' []) e2 (log_error (transaction_failed_line e s) sw))
      \<lparr>isInTransaction := False\<rparr>)"
  using assms
  by (simp add: doInTransaction_owner executor_begun failed_cases transaction_failed_line_def
      site_def newError_def)

text \<open>
  The commit fails with \<open>ec\<close>: the catch block runs with the error \<^verbatim>\<open>wrap\<close> threw. If the
  rollback succeeds the caller gets that error; if not, nothing.
\<close>

lemma commit_failure:
  assumes "\<not> isInTransaction s" and "\<not> transactionActive s"
    and "db_run (dbConnection s) (calls s) ''BEGIN'' [] = Inr rb"
    and "func (began s) = (Resolved v, sw)"
    and "db_run (dbConnection sw) (calls sw) ''COMMIT'' [] = Inl ec"
  shows "doInTransaction func s =
     (case db_run (dbConnection sw) (calls sw @ [DbRun ''COMMIT'' []]) ''ROLLBACK'' [] of
        Inr rr \<Rightarrow>
          (Rejected (wrapped sw ec),
           (handed (DbRun ''ROLLBACK'' [])
              (log_error (transaction_failed_line (wrapped sw ec) s)
                 (query_failed (DbRun ''COMMIT'' []) ec sw)))
           \<lparr>transactionActive := False, transactionPromise := Some (Rejected (wrapped sw ec)),
            isInTransaction := False\<rparr>)
      | Inl e2 \<Rightarrow>
          (Unsettled,
           (query_failed (DbRun ''ROLLBACK'' []) e2
              (log_error (transaction_failed_line (wrapped sw ec) s)
                 (query_failed (DbRun ''COMMIT'' []) ec sw)))
           \<lparr>isInTransaction := False\<rparr>))"
  using assms
  by (simp add: doInTransaction_owner executor_begun commit_def execute_fail failed_cases
      transaction_failed_line_def site_def newError_def query_failed_def handed_def log_error_def
      split: sum.splits)

text \<open>A caller that finds the slot taken and its promise pending never resumes.\<close>

lemma taken_slot_blocks:
  assumes "\<not> isInTransaction s" and "transactionActive s" and "transactionPromise s = Some Unsettled"
  shows "doInTransaction func s = (Unsettled, s)"
  using assms by (simp add: doInTransaction_def)

text \<open>
  C2. With the chain's flag set, \<^verbatim>\<open>doInTransaction(func)\<close> is \<^verbatim>\<open>func()\<close>: the same result
  (value or error) and the same state, so the handle receives nothing but what the work
  hands over. A call nested in the work of another call is the work alone. When the outer
  call owns the transaction and \<^verbatim>\<open>BEGIN\<close>, the work and \<^verbatim>\<open>COMMIT\<close> succeed, the handle
  receives \<^verbatim>\<open>BEGIN\<close> once, before the calls of the work, and \<^verbatim>\<open>COMMIT\<close> once, after them.
\<close>

theorem reentrancy:
  "(isInTransaction s \<longrightarrow> doInTransaction func s = func s)
   \<and> doInTransaction (doInTransaction func) s = doInTransaction func s
   \<and> (\<not> isInTransaction s \<and> \<not> transactionActive s
        \<and> db_run (dbConnection s) (calls s) ''BEGIN'' [] = Inr rb
        \<and> func (began s) = (Resolved v, sw)
        \<and> db_run (dbConnection sw) (calls sw) ''COMMIT'' [] = Inr rc
      \<longrightarrow> fst (doInTransaction (doInTransaction func) s) = Resolved v
        \<and> calls (began s) = calls s @ [DbRun ''BEGIN'' []]
        \<and> calls (snd (doInTransaction (doInTransaction func) s)) = calls sw @ [DbRun ''COMMIT'' []])"
proof (intro conjI impI)
  assume "isInTransaction s"
  then show "doInTransaction func s = func s" by (rule doInTransaction_inline)
next
  show "doInTransaction (doInTransaction func) s = doInTransaction func s"
    by (rule doInTransaction_nested)
next
  assume h: "\<not> isInTransaction s \<and> \<not> transactionActive s
        \<and> db_run (dbConnection s) (calls s) ''BEGIN'' [] = Inr rb
        \<and> func (began s) = (Resolved v, sw)
        \<and> db_run (dbConnection sw) (calls sw) ''COMMIT'' [] = Inr rc"
  then have c: "doInTransaction func s =
     (Resolved v,
      (handed (DbRun ''COMMIT'' []) sw)
      \<lparr>transactionActive := False, transactionPromise := Some (Resolved ()), isInTransaction := False\<rparr>)"
    by (intro committed) simp_all
  show "fst (doInTransaction (doInTransaction func) s) = Resolved v"
    by (simp add: doInTransaction_nested c)
  show "calls (began s) = calls s @ [DbRun ''BEGIN'' []]"
    by (simp add: began_def handed_def entered_def newError_def)
  show "calls (snd (doInTransaction (doInTransaction func) s)) = calls sw @ [DbRun ''COMMIT'' []]"
    by (simp add: doInTransaction_nested c handed_def)
qed

text \<open>
  C2 on \<^verbatim>\<open>doInTransaction(() => doInTransaction(() => insert(...)))\<close>, and on a call made
  with the flag set.
\<close>

theorem reentrancy_witness:
  "doInTransaction (insert_rec ''notes'' [(''noteId'', Text ''abc'')] False)
      ((loaded (sample_driver [] []) sample_texts)\<lparr>isInTransaction := True\<rparr>)
    = insert_rec ''notes'' [(''noteId'', Text ''abc'')] False
      ((loaded (sample_driver [] []) sample_texts)\<lparr>isInTransaction := True\<rparr>)
   \<and> fst (doInTransaction (doInTransaction (insert_rec ''notes'' [(''noteId'', Text ''abc'')] False))
            (loaded (sample_driver [] []) sample_texts)) = Resolved (Number 1)
   \<and> calls (snd (doInTransaction (doInTransaction (insert_rec ''notes'' [(''noteId'', Text ''abc'')] False))
            (loaded (sample_driver [] []) sample_texts)))
      = [DbRun ''BEGIN'' [], DbRun ''INSERT  INTO notes(noteId) VALUES (?)'' [Text ''abc''],
         DbRun ''COMMIT'' []]"
proof -
  let ?s = "loaded (sample_driver [] []) sample_texts"
  let ?func = "insert_rec ''notes'' [(''noteId'', Text ''abc'')] False"
  have work: "?func (began ?s) =
      (Resolved (Number 1),
       handed (DbRun ''INSERT  INTO notes(noteId) VALUES (?)'' [Text ''abc'']) (began ?s))"
    by (simp add: insert_rec_nonempty insert_text_def execute_cases after_def began_def entered_def
        newError_def handed_def loaded_def sample_driver_def)
  let ?sw = "handed (DbRun ''INSERT  INTO notes(noteId) VALUES (?)'' [Text ''abc'']) (began ?s)"
  have pre: "\<not> isInTransaction ?s \<and> \<not> transactionActive ?s
      \<and> db_run (dbConnection ?s) (calls ?s) ''BEGIN'' [] = Inr \<lparr>lastID = Number 0\<rparr>
      \<and> ?func (began ?s) = (Resolved (Number 1), ?sw)
      \<and> db_run (dbConnection ?sw) (calls ?sw) ''COMMIT'' [] = Inr \<lparr>lastID = Number 2\<rparr>"
    using work
    by (simp add: began_def entered_def newError_def handed_def loaded_def sample_driver_def)
  have first: "doInTransaction ?func (?s\<lparr>isInTransaction := True\<rparr>) = ?func (?s\<lparr>isInTransaction := True\<rparr>)"
    by (rule reentrancy [of "?s\<lparr>isInTransaction := True\<rparr>" ?func, THEN conjunct1, THEN mp]) simp
  note rest = reentrancy [of ?s ?func "\<lparr>lastID = Number 0\<rparr>" "Number 1" ?sw "\<lparr>lastID = Number 2\<rparr>",
      THEN conjunct2, THEN conjunct2, THEN mp, OF pre]
  have "calls ?sw = [DbRun ''BEGIN'' [], DbRun ''INSERT  INTO notes(noteId) VALUES (?)'' [Text ''abc'']]"
    by (simp add: began_def entered_def newError_def handed_def loaded_def)
  with first rest show ?thesis by simp
qed

text \<open>
  The code breaks C4 where the rollback fails too. For every work that throws \<open>e\<close> in a call that
  owns the transaction: when the handle then refuses \<^verbatim>\<open>ROLLBACK\<close> with \<open>e2\<close>, \<^verbatim>\<open>ROLLBACK\<close> has
  been handed over once and both errors are logged, but the promise of the call is never
  settled, so the caller does not get \<open>e\<close> (nor anything else), and \<^verbatim>\<open>transactionActive\<close>
  stays true.
\<close>

theorem failed_rollback_hides_error:
  assumes "\<not> isInTransaction s" and "\<not> transactionActive s"
    and "db_run (dbConnection s) (calls s) ''BEGIN'' [] = Inr rb"
    and "func (began s) = (Rejected e, sw)" and "transactionActive sw"
    and "db_run (dbConnection sw) (calls sw) ''ROLLBACK'' [] = Inl e2"
  shows "fst (doInTransaction func s) = Unsettled
       \<and> transactionActive (snd (doInTransaction func s))
       \<and> calls (snd (doInTransaction func s)) = calls sw @ [DbRun ''ROLLBACK'' []]
       \<and> logs (snd (doInTransaction func s))
           = logs sw @ [(LevelError, transaction_failed_line e s),
                        (LevelError, ''Error executing query. Inner exception: '' @ stack e2 @ site sw)]"
  using assms(5)
  by (simp add: rollback_failure [of s rb func e sw e2, OF assms(1-4) assms(6)] query_failed_def handed_def log_error_def
      site_def)

text \<open>C4 on a work that throws \<open>boom\<close>, with a handle that refuses \<^verbatim>\<open>ROLLBACK\<close>.\<close>

theorem failed_rollback_hides_error_witness:
  "fst (doInTransaction (throwing boom) (loaded (sample_driver [''ROLLBACK''] []) sample_texts))
     = Unsettled
   \<and> transactionActive
       (snd (doInTransaction (throwing boom) (loaded (sample_driver [''ROLLBACK''] []) sample_texts)))
   \<and> calls (snd (doInTransaction (throwing boom) (loaded (sample_driver [''ROLLBACK''] []) sample_texts)))
     = [DbRun ''BEGIN'' [], DbRun ''ROLLBACK'' []]
   \<and> logs (snd (doInTransaction (throwing boom) (loaded (sample_driver [''ROLLBACK''] []) sample_texts)))
     = [(LevelError,
         ''Error executing transaction, executing rollback. Inner exception: Error: boomError at I''),
        (LevelError, ''Error executing query. Inner exception: Error: SQLITE_ERRORError at III'')]"
proof -
  let ?s = "loaded (sample_driver [''ROLLBACK''] []) sample_texts"
  have 1: "\<not> isInTransaction ?s" and 2: "\<not> transactionActive ?s"
    and 3: "db_run (dbConnection ?s) (calls ?s) ''BEGIN'' [] = Inr \<lparr>lastID = Number 0\<rparr>"
    and 4: "throwing boom (began ?s) = (Rejected boom, began ?s)"
    and 5: "transactionActive (began ?s)"
    and 6: "db_run (dbConnection (began ?s)) (calls (began ?s)) ''ROLLBACK'' [] = Inl sqlite_error"
    by (simp_all add: loaded_def sample_driver_def throwing_def began_def entered_def handed_def
        newError_def)
  from failed_rollback_hides_error [of ?s _ "throwing boom" boom "began ?s" sqlite_error, OF 1 2 3 4 5 6]
  show ?thesis
    by (simp add: transaction_failed_line_def site_def began_def entered_def handed_def newError_def
        loaded_def boom_def sqlite_error_def sample_texts_def)
qed

text \<open>
  The code breaks C10 where the rollback fails too. For every work that returns \<open>v\<close> in a call that
  owns the transaction: when the handle refuses \<^verbatim>\<open>COMMIT\<close> with \<open>ec\<close> and then \<^verbatim>\<open>ROLLBACK\<close> with
  \<open>e2\<close>, the failure is logged, \<^verbatim>\<open>ROLLBACK\<close> is handed over and the flag is cleared, but the
  promise of the call is never settled, so the caller gets neither the error of \<^verbatim>\<open>COMMIT\<close>
  nor the value, and \<^verbatim>\<open>transactionActive\<close> stays true.
\<close>

theorem failed_commit_then_failed_rollback:
  assumes "\<not> isInTransaction s" and "\<not> transactionActive s"
    and "db_run (dbConnection s) (calls s) ''BEGIN'' [] = Inr rb"
    and "func (began s) = (Resolved v, sw)" and "transactionActive sw"
    and "db_run (dbConnection sw) (calls sw) ''COMMIT'' [] = Inl ec"
    and "db_run (dbConnection sw) (calls sw @ [DbRun ''COMMIT'' []]) ''ROLLBACK'' [] = Inl e2"
  shows "fst (doInTransaction func s) = Unsettled
       \<and> \<not> isInTransaction (snd (doInTransaction func s))
       \<and> transactionActive (snd (doInTransaction func s))
       \<and> calls (snd (doInTransaction func s)) = calls sw @ [DbRun ''COMMIT'' [], DbRun ''ROLLBACK'' []]
       \<and> logs (snd (doInTransaction func s))
           = logs sw @ [(LevelError, ''Error executing query. Inner exception: '' @ stack ec @ site sw),
                        (LevelError, transaction_failed_line (wrapped sw ec) s),
                        (LevelError, ''Error executing query. Inner exception: '' @ stack e2
                                     @ stackTexts sw (Suc (errorsCreated sw)))]"
  using assms(5,7)
  by (simp add: commit_failure [of s rb func v sw ec, OF assms(1-4) assms(6)] query_failed_def handed_def log_error_def
      site_def)

text \<open>
  C10 on a work that returns 5, with a handle that refuses \<^verbatim>\<open>COMMIT\<close> and \<^verbatim>\<open>ROLLBACK\<close>.
\<close>

theorem failed_commit_then_failed_rollback_witness:
  "fst (doInTransaction (returning (Number 5))
          (loaded (sample_driver [''COMMIT'', ''ROLLBACK''] []) sample_texts)) = Unsettled
   \<and> \<not> isInTransaction (snd (doInTransaction (returning (Number 5))
          (loaded (sample_driver [''COMMIT'', ''ROLLBACK''] []) sample_texts)))
   \<and> transactionActive (snd (doInTransaction (returning (Number 5))
          (loaded (sample_driver [''COMMIT'', ''ROLLBACK''] []) sample_texts)))
   \<and> calls (snd (doInTransaction (returning (Number 5))
          (loaded (sample_driver [''COMMIT'', ''ROLLBACK''] []) sample_texts)))
     = [DbRun ''BEGIN'' [], DbRun ''COMMIT'' [], DbRun ''ROLLBACK'' []]
   \<and> logs (snd (doInTransaction (returning (Number 5))
          (loaded (sample_driver [''COMMIT'', ''ROLLBACK''] []) sample_texts)))
     = [(LevelError, ''Error executing query. Inner exception: Error: SQLITE_ERRORError at III''),
        (LevelError,
         ''Error executing transaction, executing rollback. Inner exception: Error at IIIError at I''),
        (LevelError, ''Error executing query. Inner exception: Error: SQLITE_ERRORError at IIII'')]"
proof -
  let ?s = "loaded (sample_driver [''COMMIT'', ''ROLLBACK''] []) sample_texts"
  have 1: "\<not> isInTransaction ?s" and 2: "\<not> transactionActive ?s"
    and 3: "db_run (dbConnection ?s) (calls ?s) ''BEGIN'' [] = Inr \<lparr>lastID = Number 0\<rparr>"
    and 4: "returning (Number 5) (began ?s) = (Resolved (Number 5), began ?s)"
    and 5: "transactionActive (began ?s)"
    and 6: "db_run (dbConnection (began ?s)) (calls (began ?s)) ''COMMIT'' [] = Inl sqlite_error"
    and 7: "db_run (dbConnection (began ?s)) (calls (began ?s) @ [DbRun ''COMMIT'' []]) ''ROLLBACK'' []
            = Inl sqlite_error"
    by (simp_all add: loaded_def sample_driver_def returning_def began_def entered_def handed_def
        newError_def)
  from failed_commit_then_failed_rollback [of ?s _ "returning (Number 5)" "Number 5" "began ?s"
      sqlite_error sqlite_error, OF 1 2 3 4 5 6 7]
  show ?thesis
    by (simp add: transaction_failed_line_def site_def wrapped_def began_def entered_def handed_def
        newError_def loaded_def sqlite_error_def sample_texts_def)
qed

section \<open>The coordinator under interleaving: mutual exclusion\<close>

lemma scan_append:
  "scan opened (t @ u) = (case scan opened t of None \<Rightarrow> None | Some b \<Rightarrow> scan b u)"
  by (induction opened t rule: scan.induct) auto

lemma sum_update:
  "i < length xs \<Longrightarrow> sum_list (map f (xs[i := y])) + f (xs ! i) = sum_list (map f xs) + (f y :: nat)"
proof (induction xs arbitrary: i)
  case Nil
  then show ?case by simp
next
  case (Cons x xs)
  then show ?case by (cases i) auto
qed

lemma part_le_sum:
  "i < length xs \<Longrightarrow> (f (xs ! i) :: nat) \<le> sum_list (map f xs)"
proof (induction xs arbitrary: i)
  case Nil
  then show ?case by simp
next
  case (Cons x xs)
  then show ?case by (cases i) (auto simp: trans_le_add2)
qed

lemma sum_zero: "sum_list (map f xs) = (0::nat) \<Longrightarrow> x \<in> set xs \<Longrightarrow> f x = 0"
  by (induction xs) auto

lemma before_end_open: "before_end c \<Longrightarrow> 0 < open_intervals c"
  by (cases "current c") (auto simp: before_end_def open_intervals_def)


lemma set_chain_simps [simp]:
  "callChains (set_chain i c w) = (callChains w)[i := c]"
  "transactionActive_g (set_chain i c w) = transactionActive_g w"
  "transactionPromise_g (set_chain i c w) = transactionPromise_g w"
  "promises (set_chain i c w) = promises w"
  "trace (set_chain i c w) = trace w"
  by (simp_all add: set_chain_def)

lemma issue_simps [simp]:
  "callChains (issue x w) = callChains w"
  "transactionActive_g (issue x w) = transactionActive_g w"
  "transactionPromise_g (issue x w) = transactionPromise_g w"
  "promises (issue x w) = promises w"
  "trace (issue x w) = trace w @ [x]"
  by (simp_all add: issue_def)

lemma deliver_simps [simp]:
  "isInTransaction_c (deliver r c) = isInTransaction_c c"
  "open_intervals (deliver r c) = outer_owners c"
  "before_end (deliver r c) = (0 < outer_owners c)"
  by (auto simp: deliver_def open_intervals_def outer_owners_def before_end_def
      split: list.splits ctx.splits)

lemma in_progress_update:
  assumes "i < length (callChains w)" and "callChains w' = (callChains w)[i := c']"
  shows "in_progress w' + open_intervals (callChains w ! i) = in_progress w + open_intervals c'"
  using assms sum_update [of i "callChains w" open_intervals c'] by (simp add: in_progress_def)

lemma exists_update:
  assumes "x \<in> set xs" and "P x" and "i < length xs" and "P (xs ! i) \<Longrightarrow> P y"
  shows "\<exists>z \<in> set (xs[i := y]). P z"
proof -
  from assms(1) obtain j where j: "j < length xs" "xs ! j = x"
    by (auto simp: in_set_conv_nth)
  show ?thesis
  proof (cases "j = i")
    case True
    with j assms have "P y" by simp
    moreover have "y \<in> set (xs[i := y])"
      using assms(3) by (simp add: set_update_memI)
    ultimately show ?thesis by blast
  next
    case False
    with j have "(xs[i := y]) ! j = x" by simp
    moreover have "j < length (xs[i := y])" using j by simp
    ultimately have "x \<in> set (xs[i := y])" by (metis nth_mem)
    with assms(2) show ?thesis by blast
  qed
qed

text \<open>A step of chain i that opens no interval.\<close>

lemma coordinated_keep:
  assumes I: "coordinated w" and i: "i < length (callChains w)"
    and ch: "callChains w' = (callChains w)[i := c']"
    and fl: "isInTransaction_c c' = (0 < open_intervals c')"
    and le: "open_intervals c' \<le> open_intervals (callChains w ! i)"
    and act: "open_intervals c' = open_intervals (callChains w ! i) \<Longrightarrow> transactionActive_g w \<Longrightarrow> transactionActive_g w'"
    and tr: "trace w' = trace w @ xs"
    and sc: "\<And>b. \<exists>b'. scan b xs = Some b' \<and> (b' \<longrightarrow> b \<and> (before_end (callChains w ! i) \<longrightarrow> before_end c'))"
  shows "coordinated w'"
proof -
  from I have I1: "in_progress w \<le> 1"
    and I2: "0 < in_progress w \<Longrightarrow> transactionActive_g w"
    and I3: "\<And>c. c \<in> set (callChains w) \<Longrightarrow> isInTransaction_c c = (0 < open_intervals c)"
    by (auto simp: coordinated_def)
  from I obtain opened where op: "scan False (trace w) = Some opened"
    and op2: "opened \<Longrightarrow> \<exists>c \<in> set (callChains w). before_end c"
    by (auto simp: coordinated_def)
  note upd = in_progress_update [OF i ch]
  have J1: "in_progress w' \<le> 1" using upd le I1 by linarith
  have J2: "transactionActive_g w'" if "0 < in_progress w'"
  proof (cases "open_intervals c' = open_intervals (callChains w ! i)")
    case True
    with upd that have "0 < in_progress w" by simp
    with I2 act True show ?thesis by simp
  next
    case False
    with le have "open_intervals c' < open_intervals (callChains w ! i)" by simp
    moreover have "open_intervals (callChains w ! i) \<le> in_progress w"
      using part_le_sum [OF i] by (simp add: in_progress_def)
    ultimately have "in_progress w' = 0" using upd I1 by linarith
    with that show ?thesis by simp
  qed
  have J3: "isInTransaction_c c = (0 < open_intervals c)" if "c \<in> set (callChains w')" for c
  proof -
    from that ch have "c = c' \<or> c \<in> set (callChains w)"
      using set_update_subset_insert [of "callChains w" i c'] by auto
    with fl I3 show ?thesis by auto
  qed
  obtain b' where b': "scan opened xs = Some b'"
    and b'2: "b' \<Longrightarrow> opened \<and> (before_end (callChains w ! i) \<longrightarrow> before_end c')"
    using sc [of opened] by blast
  have J4: "scan False (trace w') = Some b'"
    using tr op b' by (simp add: scan_append)
  have J5: "\<exists>c \<in> set (callChains w'). before_end c" if "b'"
  proof -
    from that b'2 have "opened" and keep: "before_end (callChains w ! i) \<Longrightarrow> before_end c'"
      by blast+
    from op2 [OF \<open>opened\<close>] obtain c where c: "c \<in> set (callChains w)" "before_end c" by blast
    have "\<exists>z \<in> set ((callChains w)[i := c']). before_end z"
      by (rule exists_update [where P = before_end, OF c i]) (rule keep)
    then show ?thesis
      unfolding ch .
  qed
  show ?thesis
    unfolding coordinated_def using J1 J2 J3 J4 J5 by blast
qed

text \<open>A step of chain i that takes the free slot.\<close>

lemma coordinated_acquire:
  assumes I: "coordinated w" and i: "i < length (callChains w)"
    and free: "\<not> transactionActive_g w"
    and ch: "callChains w' = (callChains w)[i := c']"
    and fl: "isInTransaction_c c'"
    and cur: "owning (current c')" "uncommitted (current c')"
    and cal: "callers c' = callers (callChains w ! i)"
    and act: "transactionActive_g w'"
    and tr: "trace w' = trace w @ [(j, Coordinator, ''BEGIN'')]"
  shows "coordinated w'"
proof -
  from I have I2: "0 < in_progress w \<Longrightarrow> transactionActive_g w"
    and I3: "\<And>c. c \<in> set (callChains w) \<Longrightarrow> isInTransaction_c c = (0 < open_intervals c)"
    by (auto simp: coordinated_def)
  from I obtain opened where op: "scan False (trace w) = Some opened"
    and op2: "opened \<Longrightarrow> \<exists>c \<in> set (callChains w). before_end c"
    by (auto simp: coordinated_def)
  from I2 free have zero: "in_progress w = 0" by auto
  then have none: "open_intervals c = 0" if "c \<in> set (callChains w)" for c
    using that sum_zero [of open_intervals "callChains w" c] by (simp add: in_progress_def)
  have "open_intervals (callChains w ! i) = 0" using none i by simp
  then have "outer_owners (callChains w ! i) = 0" by (simp add: open_intervals_def)
  then have one: "open_intervals c' = 1" and be: "before_end c'"
    using cur cal by (simp_all add: open_intervals_def outer_owners_def before_end_def)
  have "\<not> opened"
  proof
    assume opened
    from op2 [OF this] obtain c where "c \<in> set (callChains w)" "before_end c" by blast
    with none before_end_open show False by fastforce
  qed
  with op tr have J4: "scan False (trace w') = Some True"
    by (simp add: scan_append)
  have "in_progress w' = 1"
    using in_progress_update [OF i ch] zero one \<open>open_intervals (callChains w ! i) = 0\<close> by simp
  moreover have "isInTransaction_c c = (0 < open_intervals c)" if "c \<in> set (callChains w')" for c
  proof -
    from that ch have "c = c' \<or> c \<in> set (callChains w)"
      using set_update_subset_insert [of "callChains w" i c'] by auto
    with fl one I3 show ?thesis by auto
  qed
  moreover have "c' \<in> set (callChains w')"
    unfolding ch using i by (simp add: set_update_memI)
  ultimately show ?thesis
    unfolding coordinated_def using act J4 be by auto
qed


lemma outer_owners_zero:
  assumes I: "coordinated w" and i: "i < length (callChains w)"
    and own: "owning (current (callChains w ! i))"
  shows "outer_owners (callChains w ! i) = 0"
proof -
  have "open_intervals (callChains w ! i) \<le> in_progress w"
    using part_le_sum [OF i] by (simp add: in_progress_def)
  moreover from I have "in_progress w \<le> 1" by (simp add: coordinated_def)
  ultimately show ?thesis using own by (simp add: open_intervals_def)
qed

lemma flag_is_open:
  assumes "coordinated w" and "i < length (callChains w)"
  shows "isInTransaction_c (callChains w ! i) = (0 < open_intervals (callChains w ! i))"
  using assms by (simp add: coordinated_def)

lemma coordinated_deliver:
  assumes I: "coordinated w" and i: "i < length (callChains w)"
    and cur: "\<not> owning (current (callChains w ! i))"
  shows "coordinated (set_chain i (deliver r (callChains w ! i)) w)"
proof (rule coordinated_keep [OF I i, where xs = "[]"])
  have un: "\<not> uncommitted (current (callChains w ! i))"
    using cur by (cases "current (callChains w ! i)") auto
  have eq: "open_intervals (callChains w ! i) = outer_owners (callChains w ! i)"
    using cur by (simp add: open_intervals_def)
  show "isInTransaction_c (deliver r (callChains w ! i)) = (0 < open_intervals (deliver r (callChains w ! i)))"
    using flag_is_open [OF I i] eq by simp
  show "open_intervals (deliver r (callChains w ! i)) \<le> open_intervals (callChains w ! i)"
    using eq by simp
  show "\<exists>b'. scan b [] = Some b' \<and>
          (b' \<longrightarrow> b \<and> (before_end (callChains w ! i) \<longrightarrow> before_end (deliver r (callChains w ! i))))" for b
  proof -
    have "before_end (callChains w ! i) = (0 < outer_owners (callChains w ! i))"
      using un by (simp add: before_end_def)
    then show ?thesis by simp
  qed
qed simp_all

lemma coordinated_move:
  assumes I: "coordinated w" and i: "i < length (callChains w)"
    and own: "owning a = owning (current (callChains w ! i))"
    and unc: "uncommitted a = uncommitted (current (callChains w ! i))"
  shows "coordinated (set_chain i ((callChains w ! i)\<lparr>current := a\<rparr>) w)"
proof (rule coordinated_keep [OF I i, where xs = "[]"])
  let ?c = "callChains w ! i"
  show "isInTransaction_c (?c\<lparr>current := a\<rparr>) = (0 < open_intervals (?c\<lparr>current := a\<rparr>))"
    using flag_is_open [OF I i] own by (simp add: open_intervals_def outer_owners_def)
  show "open_intervals (?c\<lparr>current := a\<rparr>) \<le> open_intervals ?c"
    using own by (simp add: open_intervals_def outer_owners_def)
  show "\<exists>b'. scan b [] = Some b' \<and> (b' \<longrightarrow> b \<and> (before_end ?c \<longrightarrow> before_end (?c\<lparr>current := a\<rparr>)))" for b
    using unc by (simp add: before_end_def outer_owners_def)
qed simp_all

lemma coordinated_call:
  assumes I: "coordinated w" and i: "i < length (callChains w)"
    and cur: "current (callChains w ! i) = Run cx wk"
  shows "coordinated (set_chain i ((callChains w ! i)\<lparr>current := Entry inner,
           callers := (cx, k) # callers (callChains w ! i)\<rparr>) w)"
proof (rule coordinated_keep [OF I i, where xs = "[]"])
  let ?c = "callChains w ! i"
  let ?c' = "?c\<lparr>current := Entry inner, callers := (cx, k) # callers ?c\<rparr>"
  have eq: "open_intervals ?c' = open_intervals ?c"
    using cur by (simp add: open_intervals_def outer_owners_def)
  show "isInTransaction_c ?c' = (0 < open_intervals ?c')"
    using flag_is_open [OF I i] unfolding eq by simp
  show "open_intervals ?c' \<le> open_intervals ?c"
    using eq by simp
  show "\<exists>b'. scan b [] = Some b' \<and> (b' \<longrightarrow> b \<and> (before_end ?c \<longrightarrow> before_end ?c'))" for b
    using cur by (simp add: before_end_def outer_owners_def)
qed simp_all

lemma coordinated_issue_work:
  assumes "coordinated w"
  shows "coordinated (issue (j, Work, query) w)"
  using assms by (auto simp: coordinated_def in_progress_def scan_append)

lemma coordinated_close:
  assumes I: "coordinated w" and i: "i < length (callChains w)"
    and own: "owning (current (callChains w ! i))" "owning a"
    and q: "query = ''COMMIT'' \<or> query = ''ROLLBACK''"
  shows "coordinated (issue (j, Coordinator, query) (set_chain i ((callChains w ! i)\<lparr>current := a\<rparr>) w))"
proof (rule coordinated_keep [OF I i, where xs = "[(j, Coordinator, query)]"])
  let ?c = "callChains w ! i"
  show "isInTransaction_c (?c\<lparr>current := a\<rparr>) = (0 < open_intervals (?c\<lparr>current := a\<rparr>))"
    using flag_is_open [OF I i] own by (simp add: open_intervals_def outer_owners_def)
  show "open_intervals (?c\<lparr>current := a\<rparr>) \<le> open_intervals ?c"
    using own by (simp add: open_intervals_def outer_owners_def)
  show "\<exists>b'. scan b [(j, Coordinator, query)] = Some b' \<and>
          (b' \<longrightarrow> b \<and> (before_end ?c \<longrightarrow> before_end (?c\<lparr>current := a\<rparr>)))" for b
    using q by auto
qed simp_all

lemma coordinated_finish:
  assumes I: "coordinated w" and i: "i < length (callChains w)"
    and own: "owning (current (callChains w ! i))" "\<not> uncommitted (current (callChains w ! i))"
    and ch: "callChains w' = (callChains w)[i := (callChains w ! i)\<lparr>current := AwaitOwn p ret, isInTransaction_c := False\<rparr>]"
    and tr: "trace w' = trace w"
  shows "coordinated w'"
proof (rule coordinated_keep [OF I i ch, where xs = "[]"])
  let ?c = "callChains w ! i"
  let ?c' = "?c\<lparr>current := AwaitOwn p ret, isInTransaction_c := False\<rparr>"
  have zero: "open_intervals ?c' = 0"
    using outer_owners_zero [OF I i own(1)] by (simp add: open_intervals_def outer_owners_def)
  have one: "open_intervals ?c = 1"
    using outer_owners_zero [OF I i own(1)] own(1) by (simp add: open_intervals_def)
  show "isInTransaction_c ?c' = (0 < open_intervals ?c')"
    using zero by simp
  show "open_intervals ?c' \<le> open_intervals ?c"
    using zero by simp
  show "transactionActive_g w'" if "open_intervals ?c' = open_intervals ?c"
    using that zero one by simp
  show "trace w' = trace w @ []"
    using tr by simp
  show "\<exists>b'. scan b [] = Some b' \<and> (b' \<longrightarrow> b \<and> (before_end ?c \<longrightarrow> before_end ?c'))" for b
    using own(2) outer_owners_zero [OF I i own(1)] by (simp add: before_end_def)
qed

lemma coordinated_contend:
  assumes I: "coordinated w" and i: "i < length (callChains w)"
    and cur: "\<not> owning (current (callChains w ! i))"
  shows "coordinated (contend i func w)"
proof (cases "transactionActive_g w")
  case True
  have "\<not> uncommitted (current (callChains w ! i))"
    using cur by (cases "current (callChains w ! i)") auto
  with True show ?thesis
    using coordinated_move [OF I i, of "Blocked (transactionPromise_g w) func"] cur
    by (simp add: contend_def)
next
  case False
  show ?thesis
    unfolding contend_def Let_def using False
    by (auto intro!: coordinated_acquire [OF I i False, where j = i
          and c' = "(callChains w ! i)\<lparr>current := AwaitBegin (length (promises w)) func, isInTransaction_c := True\<rparr>"])
qed


lemma coordinated_wake:
  assumes I: "coordinated w" and i: "i < length (callChains w)"
  shows "coordinated (wake i w)"
proof (cases "current (callChains w ! i)")
  case (Run cx wk)
  show ?thesis
  proof (cases wk)
    case (Ret v)
    show ?thesis
    proof (cases cx)
      case Plain
      with Run Ret show ?thesis
        using coordinated_deliver [OF I i, of "Inr v"] by (simp add: wake_def Let_def)
    next
      case (Owner p)
      with Run Ret show ?thesis
        using coordinated_close [OF I i, of "AwaitCommit p v" "''COMMIT''" i]
        by (simp add: wake_def Let_def)
    qed
  next
    case (Thr e)
    show ?thesis
    proof (cases cx)
      case Plain
      with Run Thr show ?thesis
        using coordinated_deliver [OF I i, of "Inl e"] by (simp add: wake_def Let_def)
    next
      case (Owner p)
      with Run Thr show ?thesis
        using coordinated_close [OF I i, of "AwaitRollback p Null e" "''ROLLBACK''" i]
        by (simp add: wake_def Let_def catch_def)
    qed
  next
    case (Exec query params k)
    have "coordinated (set_chain i ((callChains w ! i)\<lparr>current := AwaitExec cx k\<rparr>) w)"
      using Run by (intro coordinated_move [OF I i]) simp_all
    with Run Exec show ?thesis
      using coordinated_issue_work by (simp add: wake_def Let_def)
  next
    case (Pause wk')
    have "coordinated (set_chain i ((callChains w ! i)\<lparr>current := Run cx wk'\<rparr>) w)"
      using Run by (intro coordinated_move [OF I i]) simp_all
    with Run Pause show ?thesis
      by (simp add: wake_def Let_def)
  next
    case (InTx inner k)
    with Run show ?thesis
      using coordinated_call [OF I i Run, where inner = inner and k = k] by (simp add: wake_def Let_def)
  qed
next
  case (AwaitExec cx k)
  with I show ?thesis by (simp add: wake_def Let_def)
next
  case (Entry func)
  show ?thesis
  proof (cases "isInTransaction_c (callChains w ! i)")
    case True
    have "coordinated (set_chain i ((callChains w ! i)\<lparr>current := Run Plain func\<rparr>) w)"
      using Entry by (intro coordinated_move [OF I i]) simp_all
    with Entry True show ?thesis by (simp add: wake_def Let_def)
  next
    case False
    with Entry show ?thesis
      using coordinated_contend [OF I i, of func] by (simp add: wake_def Let_def)
  qed
next
  case (Blocked awaited func)
  have con: "coordinated (contend i func w)"
    using Blocked by (intro coordinated_contend [OF I i]) simp
  have del: "coordinated (set_chain i (deliver r (callChains w ! i)) w)" for r
    using Blocked by (intro coordinated_deliver [OF I i]) simp
  show ?thesis
    using Blocked I con del by (simp add: wake_def Let_def split: option.splits outcome.splits)
next
  case (AwaitBegin p func)
  with I show ?thesis by (simp add: wake_def Let_def)
next
  case (AwaitCommit p ret)
  with I show ?thesis by (simp add: wake_def Let_def)
next
  case (AwaitRollback p ret e)
  with I show ?thesis by (simp add: wake_def Let_def)
next
  case (AwaitOwn p ret)
  have del: "coordinated (set_chain i (deliver r (callChains w ! i)) w)" for r
    using AwaitOwn by (intro coordinated_deliver [OF I i]) simp
  show ?thesis
    using AwaitOwn I del by (simp add: wake_def Let_def split: outcome.splits)
next
  case (Finished r)
  with I show ?thesis by (simp add: wake_def Let_def)
qed

lemma coordinated_reply:
  assumes I: "coordinated w" and i: "i < length (callChains w)"
  shows "coordinated (reply i r w)"
proof (cases "current (callChains w ! i)")
  case (AwaitExec cx k)
  have "coordinated (set_chain i ((callChains w ! i)\<lparr>current := Run cx (k r)\<rparr>) w)"
    using AwaitExec by (intro coordinated_move [OF I i]) simp_all
  with AwaitExec show ?thesis by (simp add: reply_def Let_def)
next
  case (AwaitBegin p func)
  show ?thesis
  proof (cases r)
    case (Inl e)
    with AwaitBegin show ?thesis
      using coordinated_close [OF I i, of "AwaitRollback p Null e" "''ROLLBACK''" i]
      by (simp add: reply_def Let_def catch_def)
  next
    case (Inr res)
    have "coordinated (set_chain i ((callChains w ! i)\<lparr>current := Run (Owner p) func\<rparr>) w)"
      using AwaitBegin by (intro coordinated_move [OF I i]) simp_all
    with AwaitBegin Inr show ?thesis by (simp add: reply_def Let_def)
  qed
next
  case (AwaitCommit p ret)
  show ?thesis
  proof (cases r)
    case (Inl e)
    with AwaitCommit show ?thesis
      using coordinated_close [OF I i, of "AwaitRollback p ret e" "''ROLLBACK''" i]
      by (simp add: reply_def Let_def catch_def)
  next
    case (Inr res)
    have "coordinated (release i p ret (Resolved ()) w)"
      using AwaitCommit by (intro coordinated_finish [OF I i, of _ p ret]) (simp_all add: release_def)
    with AwaitCommit Inr show ?thesis by (simp add: reply_def Let_def)
  qed
next
  case (AwaitRollback p ret e)
  show ?thesis
  proof (cases r)
    case (Inl e')
    have "coordinated (set_chain i ((callChains w ! i)\<lparr>current := AwaitOwn p ret, isInTransaction_c := False\<rparr>) w)"
      using AwaitRollback by (intro coordinated_finish [OF I i, of _ p ret]) simp_all
    with AwaitRollback Inl show ?thesis by (simp add: reply_def Let_def)
  next
    case (Inr res)
    have "coordinated (release i p ret (Rejected e) w)"
      using AwaitRollback by (intro coordinated_finish [OF I i, of _ p ret]) (simp_all add: release_def)
    with AwaitRollback Inr show ?thesis by (simp add: reply_def Let_def)
  qed
qed (use I in \<open>simp_all add: reply_def Let_def\<close>)

lemma coordinated_step: "coordinated w \<Longrightarrow> coordinated (step ev w)"
  by (cases ev) (simp_all add: coordinated_wake coordinated_reply)

lemma coordinated_run: "coordinated w \<Longrightarrow> coordinated (run evs w)"
  by (induction evs arbitrary: w) (simp_all add: coordinated_step)

lemma coordinated_init: "coordinated (init works)"
proof -
  have "in_progress (init works) = 0"
    unfolding in_progress_def init_def
    by (induction works) (simp_all add: open_intervals_def outer_owners_def)
  then show ?thesis
    by (auto simp: coordinated_def) (auto simp: init_def open_intervals_def outer_owners_def)
qed

text \<open>
  C1. For any number of chains, each running any work (with any calls of
  \<^verbatim>\<open>doInTransaction\<close> in it, nested or not), and for every interleaving of their steps and
  every answer of \<^verbatim>\<open>execute\<close>: the coordinator never hands over a \<^verbatim>\<open>BEGIN\<close> while an earlier
  \<^verbatim>\<open>BEGIN\<close> of its own has not been followed by a \<^verbatim>\<open>COMMIT\<close> or \<^verbatim>\<open>ROLLBACK\<close> of its own; at
  most one interval from a \<^verbatim>\<open>BEGIN\<close> to the answer to its \<^verbatim>\<open>COMMIT\<close> or \<^verbatim>\<open>ROLLBACK\<close> is in
  progress; and while one is, \<^verbatim>\<open>transactionActive\<close> is true.
\<close>

theorem mutual_exclusion:
  "begins_separated (trace (run evs (init works)))
   \<and> in_progress (run evs (init works)) \<le> 1
   \<and> (0 < in_progress (run evs (init works)) \<longrightarrow> transactionActive_g (run evs (init works)))"
  using coordinated_run [OF coordinated_init, of evs works]
  by (auto simp: coordinated_def begins_separated_def)

text \<open>
  C1 on two chains: the second has handed over its \<^verbatim>\<open>BEGIN\<close> after the first's \<^verbatim>\<open>COMMIT\<close>
  was answered, and its interval is the one in progress.
\<close>

theorem mutual_exclusion_witness:
  "in_progress (run first_then_second (init [transact (Ret Null), transact (Ret Null)])) = 1
   \<and> transactionActive_g (run first_then_second (init [transact (Ret Null), transact (Ret Null)]))
   \<and> trace (run first_then_second (init [transact (Ret Null), transact (Ret Null)]))
       = [(0, Coordinator, ''BEGIN''), (0, Coordinator, ''COMMIT''), (1, Coordinator, ''BEGIN'')]
   \<and> begins_separated (trace (run first_then_second (init [transact (Ret Null), transact (Ret Null)])))"
  using mutual_exclusion [of first_then_second "[transact (Ret Null), transact (Ret Null)]"]
  by (simp add: first_then_second_def init_def wake_def reply_def contend_def catch_def release_def
      deliver_def set_chain_def issue_def promise_state_def transact_def finish_def fine_def Let_def
      in_progress_def open_intervals_def outer_owners_def)

text \<open>
  Reentrancy under interleaving: in every reachable state, a call of \<^verbatim>\<open>doInTransaction\<close>
  made from work that runs inside the chain's own transaction finds the flag set and runs
  its work inline, handing nothing to \<^verbatim>\<open>execute\<close>; a call made outside of any transaction
  finds the flag clear and contends for the slot.
\<close>

lemma nested_call_runs_inline:
  assumes i: "i < length (callChains (run evs (init works)))"
    and cur: "current (callChains (run evs (init works)) ! i) = Entry inner"
  shows "wake i (run evs (init works)) =
     (if 0 < outer_owners (callChains (run evs (init works)) ! i)
      then set_chain i ((callChains (run evs (init works)) ! i)\<lparr>current := Run Plain inner\<rparr>)
             (run evs (init works))
      else contend i inner (run evs (init works)))"
proof -
  have "coordinated (run evs (init works))" by (rule coordinated_run [OF coordinated_init])
  from flag_is_open [OF this i] cur show ?thesis
    by (simp add: wake_def open_intervals_def)
qed

section \<open>The coordinator under interleaving: waiters\<close>

lemma run_append: "run (xs @ ys) w = run ys (run xs w)"
  by (induction xs arbitrary: w) simp_all

lemma in_progress_issue [simp]: "in_progress (issue x w) = in_progress w"
  by (simp add: in_progress_def)

lemma in_progress_set_chain:
  assumes "i < length (callChains w)"
  shows "in_progress (set_chain i c' w) + open_intervals (callChains w ! i)
         = in_progress w + open_intervals c'"
  using in_progress_update [OF assms, of "set_chain i c' w" c'] by simp

lemma nobody_inside:
  assumes "in_progress w = 0" and "i < length (callChains w)"
  shows "\<not> owning (current (callChains w ! i))" and "outer_owners (callChains w ! i) = 0"
proof -
  have "open_intervals (callChains w ! i) \<le> in_progress w"
    unfolding in_progress_def by (rule part_le_sum [OF assms(2)])
  with assms(1) have "open_intervals (callChains w ! i) = 0" by simp
  then show "\<not> owning (current (callChains w ! i))" and "outer_owners (callChains w ! i) = 0"
    by (simp_all add: open_intervals_def split: if_splits)
qed

lemma stays_outside:
  assumes "in_progress w = 0" and "i < length (callChains w)" and "open_intervals c' = 0"
  shows "in_progress (set_chain i c' w) = 0"
  using in_progress_set_chain [OF assms(2), of c'] assms(1,3) by simp

text \<open>
  With the slot taken and no chain inside a transaction, no step releases the slot, starts
  a transaction or settles a promise.
\<close>

lemma abandoned_wake:
  assumes act: "transactionActive_g w" and zero: "in_progress w = 0"
    and i: "i < length (callChains w)"
  shows "transactionActive_g (wake i w) \<and> in_progress (wake i w) = 0
       \<and> promises (wake i w) = promises w"
proof -
  note no = nobody_inside [OF zero i]
  have move: "in_progress (set_chain i ((callChains w ! i)\<lparr>current := a\<rparr>) w) = 0"
    if "\<not> owning a" for a
    using that no by (intro stays_outside [OF zero i]) (simp add: open_intervals_def outer_owners_def)
  have del: "in_progress (set_chain i (deliver r (callChains w ! i)) w) = 0" for r
    using no by (intro stays_outside [OF zero i]) simp
  have call: "in_progress (set_chain i ((callChains w ! i)\<lparr>current := Entry inner,
                 callers := (Plain, k) # callers (callChains w ! i)\<rparr>) w) = 0" for inner k
    using no by (intro stays_outside [OF zero i]) (simp add: open_intervals_def outer_owners_def)
  show ?thesis
    using act zero no(1) move del call
    by (auto simp: wake_def contend_def Let_def split: activity.splits work.splits ctx.splits
        option.splits outcome.splits)
qed

lemma abandoned_reply:
  assumes act: "transactionActive_g w" and zero: "in_progress w = 0"
    and i: "i < length (callChains w)"
  shows "transactionActive_g (reply i r w) \<and> in_progress (reply i r w) = 0
       \<and> promises (reply i r w) = promises w"
proof -
  note no = nobody_inside [OF zero i]
  have move: "in_progress (set_chain i ((callChains w ! i)\<lparr>current := a\<rparr>) w) = 0"
    if "\<not> owning a" for a
    using that no by (intro stays_outside [OF zero i]) (simp add: open_intervals_def outer_owners_def)
  show ?thesis
    using act zero no(1) move
    by (auto simp: reply_def Let_def split: activity.splits ctx.splits)
qed

lemma abandoned_step:
  assumes "transactionActive_g w" and "in_progress w = 0"
  shows "transactionActive_g (step ev w) \<and> in_progress (step ev w) = 0
       \<and> promises (step ev w) = promises w"
  using assms by (cases ev) (simp_all add: abandoned_wake abandoned_reply)

lemma abandoned_run:
  assumes "transactionActive_g w" and "in_progress w = 0"
  shows "transactionActive_g (run evs w) \<and> in_progress (run evs w) = 0
       \<and> promises (run evs w) = promises w"
  using assms
proof (induction evs arbitrary: w)
  case Nil
  then show ?case by simp
next
  case (Cons ev evs)
  from abandoned_step [OF Cons.prems, of ev] Cons.IH [of "step ev w"] show ?case by simp
qed

text \<open>
  The code breaks C3. Take any chains, any works and any steps \<open>evs0\<close> after which the executor of
  chain \<open>i\<close> is suspended at \<^verbatim>\<open>await rollback()\<close> (line 154). If the \<^verbatim>\<open>ROLLBACK\<close> fails, then
  whatever happens afterwards (any steps \<open>evs\<close>), \<^verbatim>\<open>transactionActive\<close> is true, no chain is
  inside a transaction, and no promise is settled any more: the slot is never released and
  no chain suspended at line 131 on a pending promise is ever woken up.
\<close>

theorem failed_rollback_jams_slot:
  assumes i: "i < length (callChains (run evs0 (init works)))"
    and cur: "current (callChains (run evs0 (init works)) ! i) = AwaitRollback p ret e"
  shows "transactionActive_g (run (evs0 @ Reply i (Inl e2) # evs) (init works))
       \<and> in_progress (run (evs0 @ Reply i (Inl e2) # evs) (init works)) = 0
       \<and> promises (run (evs0 @ Reply i (Inl e2) # evs) (init works))
           = promises (run evs0 (init works))"
proof -
  let ?w = "run evs0 (init works)"
  let ?c = "(callChains ?w ! i)\<lparr>current := AwaitOwn p ret, isInTransaction_c := False\<rparr>"
  have I: "coordinated ?w" by (rule coordinated_run [OF coordinated_init])
  have own: "owning (current (callChains ?w ! i))" using cur by simp
  have outer: "outer_owners (callChains ?w ! i) = 0" by (rule outer_owners_zero [OF I i own])
  have "open_intervals (callChains ?w ! i) \<le> in_progress ?w"
    unfolding in_progress_def by (rule part_le_sum [OF i])
  moreover have one: "open_intervals (callChains ?w ! i) = 1"
    using own outer by (simp add: open_intervals_def)
  moreover from I have "in_progress ?w \<le> 1" and "0 < in_progress ?w \<Longrightarrow> transactionActive_g ?w"
    by (simp_all add: coordinated_def)
  ultimately have total: "in_progress ?w = 1" and act: "transactionActive_g ?w" by simp_all
  have step: "run (evs0 @ Reply i (Inl e2) # evs) (init works) = run evs (set_chain i ?c ?w)"
    using i cur by (simp add: run_append reply_def Let_def)
  have "open_intervals ?c = 0" using outer by (simp add: open_intervals_def outer_owners_def)
  with in_progress_set_chain [OF i, of ?c] one total
  have "in_progress (set_chain i ?c ?w) = 0" by simp
  moreover have "transactionActive_g (set_chain i ?c ?w)" using act by simp
  moreover have "promises (set_chain i ?c ?w) = promises ?w" by simp
  ultimately show ?thesis
    unfolding step using abandoned_run [of "set_chain i ?c ?w" evs] by metis
qed

text \<open>
  C3 on two chains: the first's work throws and its \<^verbatim>\<open>ROLLBACK\<close> fails; later the second
  calls \<^verbatim>\<open>doInTransaction\<close> and stays suspended at line 131.
\<close>

theorem failed_rollback_jams_slot_witness:
  "current (callChains (run [Wake 0, Wake 0, Reply 0 fine, Wake 0]
       (init [transact (Thr boom), transact (Ret Null)])) ! 0) = AwaitRollback 0 Null boom
   \<and> transactionActive_g
       (run ([Wake 0, Wake 0, Reply 0 fine, Wake 0] @ Reply 0 (Inl sqlite_error)
              # [Wake 0, Wake 1, Wake 1, Wake 1])
          (init [transact (Thr boom), transact (Ret Null)]))
   \<and> current (callChains
       (run ([Wake 0, Wake 0, Reply 0 fine, Wake 0] @ Reply 0 (Inl sqlite_error)
              # [Wake 0, Wake 1, Wake 1, Wake 1])
          (init [transact (Thr boom), transact (Ret Null)])) ! 1) = Blocked (Some 0) (Ret Null)"
proof -
  let ?w = "run [Wake 0, Wake 0, Reply 0 fine, Wake 0] (init [transact (Thr boom), transact (Ret Null)])"
  have i: "0 < length (callChains ?w)"
    and cur: "current (callChains ?w ! 0) = AwaitRollback 0 Null boom"
    by (simp_all add: init_def wake_def reply_def contend_def catch_def release_def
      deliver_def set_chain_def issue_def promise_state_def transact_def finish_def fine_def Let_def)
  from failed_rollback_jams_slot [OF i cur, of sqlite_error "[Wake 0, Wake 1, Wake 1, Wake 1]"] cur
  show ?thesis
    by (simp add: init_def wake_def reply_def contend_def catch_def release_def
      deliver_def set_chain_def issue_def promise_state_def transact_def finish_def fine_def Let_def)
qed

text \<open>
  The same two chains, the second with any work \<open>func\<close>, and any steps \<open>evs\<close> after the
  failed \<^verbatim>\<open>ROLLBACK\<close>: the first chain never gets an answer from its call, the second never
  finishes, and nothing more is handed to \<^verbatim>\<open>execute\<close>.
\<close>

lemma jammed_start:
  "jammed func (run rollback_fails (init [transact (Thr boom), transact func]))"
  by (simp add: rollback_fails_def jammed_def init_def wake_def reply_def contend_def catch_def
      release_def deliver_def set_chain_def issue_def promise_state_def transact_def finish_def
      fine_def Let_def)

lemma jammed_step: "jammed func w \<Longrightarrow> jammed func (step ev w)"
proof (cases ev)
  case (Wake i)
  assume "jammed func w"
  then show ?thesis
    unfolding Wake jammed_def
    by (cases "i = 0"; cases "i = 1")
      (auto simp: wake_def contend_def set_chain_def promise_state_def transact_def Let_def)
next
  case (Reply i r)
  assume "jammed func w"
  then show ?thesis
    unfolding Reply jammed_def
    by (cases "i = 0"; cases "i = 1") (auto simp: reply_def Let_def)
qed

lemma jammed_run: "jammed func w \<Longrightarrow> jammed func (run evs w)"
  by (induction evs arbitrary: w) (simp_all add: jammed_step)

lemma nobody_finishes:
  "transactionActive_g (run (rollback_fails @ evs) (init [transact (Thr boom), transact func]))
   \<and> promise_state (run (rollback_fails @ evs) (init [transact (Thr boom), transact func])) 0 = Unsettled
   \<and> \<not> finished (callChains (run (rollback_fails @ evs) (init [transact (Thr boom), transact func])) ! 0)
   \<and> \<not> finished (callChains (run (rollback_fails @ evs) (init [transact (Thr boom), transact func])) ! 1)
   \<and> trace (run (rollback_fails @ evs) (init [transact (Thr boom), transact func]))
       = [(0, Coordinator, ''BEGIN''), (0, Coordinator, ''ROLLBACK'')]"
  using jammed_run [OF jammed_start, of func evs]
  by (auto simp: run_append jammed_def finished_def promise_state_def)

text \<open>
  When the first chain's transaction commits, the second chain, woken up, finds the slot
  free and hands over its own \<^verbatim>\<open>BEGIN\<close>.
\<close>

lemma waiter_proceeds_after_commit:
  "current (callChains (run first_then_second (init [transact (Ret v), transact func])) ! 1)
     = AwaitBegin 1 func
   \<and> trace (run first_then_second (init [transact (Ret v), transact func]))
       = [(0, Coordinator, ''BEGIN''), (0, Coordinator, ''COMMIT''), (1, Coordinator, ''BEGIN'')]"
  by (simp add: first_then_second_def init_def wake_def reply_def contend_def catch_def release_def
      deliver_def set_chain_def issue_def promise_state_def transact_def finish_def fine_def Let_def)

text \<open>
  When the first chain's work throws \<open>boom\<close> and its \<^verbatim>\<open>ROLLBACK\<close> succeeds, the second
  chain's call throws \<open>boom\<close>, whatever its work \<open>func\<close> is, and no \<^verbatim>\<open>BEGIN\<close> is handed over
  for it.
\<close>

lemma waiter_gets_foreign_error:
  "current (callChains (run first_then_second (init [transact (Thr boom), transact func])) ! 1)
     = Finished (Inl boom)
   \<and> trace (run first_then_second (init [transact (Thr boom), transact func]))
       = [(0, Coordinator, ''BEGIN''), (0, Coordinator, ''ROLLBACK'')]"
  by (simp add: first_then_second_def init_def wake_def reply_def contend_def catch_def release_def
      deliver_def set_chain_def issue_def promise_state_def transact_def finish_def fine_def Let_def)

text \<open>
  The code breaks C5 where the first transaction fails. Take any state in which the executor of
  chain \<open>i\<close> is suspended at \<^verbatim>\<open>await rollback()\<close> after its work or its \<^verbatim>\<open>COMMIT\<close> failed with
  \<open>e\<close>, and another chain \<open>j\<close> is suspended at line 131 on the promise of chain \<open>i\<close>. When the
  \<^verbatim>\<open>ROLLBACK\<close> succeeds and chain \<open>j\<close> wakes up, the slot is free, but chain \<open>j\<close> does not
  take it: its call of \<^verbatim>\<open>doInTransaction\<close> ends by throwing \<open>e\<close>, the error of chain \<open>i\<close>; its
  work \<open>func\<close> does not run and nothing is handed to \<^verbatim>\<open>execute\<close> for it.
\<close>

theorem rejected_promise_reaches_waiter:
  assumes "i < length (callChains w)" and "j < length (callChains w)" and "i \<noteq> j"
    and "current (callChains w ! i) = AwaitRollback p ret e"
    and "current (callChains w ! j) = Blocked (Some p) func"
    and "p < length (promises w)"
  shows "callChains (wake j (reply i (Inr res) w)) ! j = deliver (Inl e) (callChains w ! j)
       \<and> trace (wake j (reply i (Inr res) w)) = trace w
       \<and> \<not> transactionActive_g (wake j (reply i (Inr res) w))"
  using assms
  by (simp add: wake_def reply_def release_def promise_state_def Let_def)

text \<open>
  C5 on two chains: the second chain's call throws \<open>boom\<close>, the error of the first chain's
  work, into its handler.
\<close>

theorem rejected_promise_reaches_waiter_witness:
  "callChains (wake 1 (reply 0 fine
       (run first_rolls_back (init [transact (Thr boom), transact (Ret Null)])))) ! 1
     = \<lparr>current = Run Plain (Thr boom), callers = [], isInTransaction_c = False\<rparr>
   \<and> trace (wake 1 (reply 0 fine
       (run first_rolls_back (init [transact (Thr boom), transact (Ret Null)]))))
     = [(0, Coordinator, ''BEGIN''), (0, Coordinator, ''ROLLBACK'')]"
proof -
  let ?w = "run first_rolls_back (init [transact (Thr boom), transact (Ret Null)])"
  have w: "?w = \<lparr>transactionActive_g = True, transactionPromise_g = Some 0, promises = [Unsettled],
       callChains =
         [\<lparr>current = AwaitRollback 0 Null boom, callers = [(Plain, finish)], isInTransaction_c = True\<rparr>,
          \<lparr>current = Blocked (Some 0) (Ret Null), callers = [(Plain, finish)],
           isInTransaction_c = False\<rparr>],
       trace = [(0, Coordinator, ''BEGIN''), (0, Coordinator, ''ROLLBACK'')]\<rparr>"
    by (simp add: first_rolls_back_def init_def wake_def reply_def contend_def catch_def release_def
      deliver_def set_chain_def issue_def promise_state_def transact_def fine_def Let_def)
  have "fine = Inr \<lparr>lastID = Undefined\<rparr>" by (simp add: fine_def)
  from rejected_promise_reaches_waiter [of 0 ?w 1 0 Null boom "Ret Null" "\<lparr>lastID = Undefined\<rparr>"]
  show ?thesis
    unfolding \<open>fine = Inr \<lparr>lastID = Undefined\<rparr>\<close> w
    by (simp add: deliver_def finish_def)
qed

end
